theory Spec2Isabelle
  imports Main "HOL-Library.Char_ord" "HOL-Library.List_Lexorder" "HOL-Library.Multiset"
begin

section \<open>JavaScript strings and numbers\<close>

text \<open>
  A JavaScript string is a sequence of UTF-16 code units. It is modelled as a
  \<^typ>\<open>string\<close> whose characters are the code units U+0000 to U+00FF, so the model covers
  the strings made of these code units. The order on characters is the order of their
  codes and the order on strings is lexicographic (a proper prefix is smaller), which is
  what JavaScript's \<^verbatim>\<open><\<close> on strings computes.
\<close>

definition charCode :: "char \<Rightarrow> nat" where
  "charCode c = of_char c"

text \<open>The regular-expression classes \<^verbatim>\<open>\d\<close> and \<^verbatim>\<open>[0-9a-zA-Z]\<close>.\<close>

definition isDigit :: "char \<Rightarrow> bool" where
  "isDigit c = (48 \<le> charCode c \<and> charCode c \<le> 57)"

definition isAlnum :: "char \<Rightarrow> bool" where
  "isAlnum c = (isDigit c \<or> (65 \<le> charCode c \<and> charCode c \<le> 90)
                \<or> (97 \<le> charCode c \<and> charCode c \<le> 122))"

text \<open>
  The line terminators (LF, CR; U+2028 and U+2029 lie outside the modelled range), which
  the regular-expression atom \<^verbatim>\<open>.\<close> does not match when the \<^verbatim>\<open>s\<close> flag is absent,
  and the characters \<^verbatim>\<open>String.prototype.trim\<close> strips: TAB, LF, VT, FF, CR, SPACE and
  NO-BREAK SPACE in the modelled range.
\<close>

definition isLineTerminator :: "char \<Rightarrow> bool" where
  "isLineTerminator c = (charCode c = 10 \<or> charCode c = 13)"

definition isWhiteSpace :: "char \<Rightarrow> bool" where
  "isWhiteSpace c = (charCode c \<in> set [9, 10, 11, 12, 13, 32, 160])"

definition trim :: "string \<Rightarrow> string" where
  "trim s = rev (dropWhile isWhiteSpace (rev (dropWhile isWhiteSpace s)))"

text \<open>
  \<^verbatim>\<open>String.prototype.toLowerCase\<close> on the modelled range: A to Z, and the Latin-1
  capitals U+00C0 to U+00DE except the multiplication sign U+00D7, move up by 32.
\<close>

definition toLowerChar :: "char \<Rightarrow> char" where
  "toLowerChar c =
     (if (65 \<le> charCode c \<and> charCode c \<le> 90)
         \<or> (192 \<le> charCode c \<and> charCode c \<le> 222 \<and> charCode c \<noteq> 215)
      then char_of (charCode c + 32) else c)"

definition toLowerCase :: "string \<Rightarrow> string" where
  "toLowerCase s = map toLowerChar s"

text \<open>\<^verbatim>\<open>s.split(sep)\<close> for a one-character separator: always at least one piece.\<close>

fun split :: "char \<Rightarrow> string \<Rightarrow> string list" where
  "split sep [] = [[]]"
| "split sep (c # cs) =
     (if c = sep then [] # split sep cs
      else (let pieces = split sep cs in (c # hd pieces) # tl pieces))"

text \<open>\<^verbatim>\<open>s.includes(t)\<close>: \<open>t\<close> occurs in \<open>s\<close> as a contiguous substring.\<close>

fun includesStr :: "string \<Rightarrow> string \<Rightarrow> bool" where
  "includesStr [] t = (t = [])"
| "includesStr (c # cs) t = (take (length t) (c # cs) = t \<or> includesStr cs t)"

text \<open>
  A value that may be \<^verbatim>\<open>null\<close> or \<^verbatim>\<open>undefined\<close> is an option. \<open>truthy\<close> is
  JavaScript's truthiness of such a string (the empty string is falsy), and \<open>orEmpty\<close>
  is \<^verbatim>\<open>x || ''\<close>.
\<close>

fun truthy :: "string option \<Rightarrow> bool" where
  "truthy None = False"
| "truthy (Some s) = (s \<noteq> [])"

fun orEmpty :: "string option \<Rightarrow> string" where
  "orEmpty None = []"
| "orEmpty (Some s) = s"

text \<open>
  \<^verbatim>\<open>parseInt(digits, 10)\<close> on a non-empty run of decimal digits. \<open>parseInt10\<close> is
  the integer the digits denote. The result is a Number: \<open>toNumber\<close> rounds the integer
  to the nearest double (ties to even, 53 significant bits), and the value \<open>2 ^ 1024\<close>,
  which no finite double reaches, stands for \<^verbatim>\<open>Infinity\<close>. With this reading
  \<^verbatim>\<open>===\<close> and \<^verbatim>\<open><\<close> on the Numbers that arise are \<open>=\<close> and \<open><\<close> on \<^typ>\<open>nat\<close>.
\<close>

definition parseInt10 :: "string \<Rightarrow> nat" where
  "parseInt10 ds = foldl (\<lambda>a c. 10 * a + (charCode c - 48)) 0 ds"

fun bitlen :: "nat \<Rightarrow> nat" where
  "bitlen n = (if n = 0 then 0 else Suc (bitlen (n div 2)))"

declare bitlen.simps [simp del]

definition toNumber :: "nat \<Rightarrow> nat" where
  "toNumber n =
     (if n < 2 ^ 53 then n
      else let e = bitlen n - 53;
               q = n div 2 ^ e;
               r = n mod 2 ^ e;
               h = 2 ^ (e - 1);
               q' = (if h < r \<or> (r = h \<and> odd q) then q + 1 else q)
           in min (q' * 2 ^ e) (2 ^ 1024))"

section \<open>Exceptions\<close>

text \<open>
  A function that can throw returns a sum: \<open>Inl\<close> the exception, \<open>Inr\<close> the value.
  \<open>TypeError\<close> is the exception of reading a property of \<^verbatim>\<open>null\<close>;
  \<open>Error msg\<close> is \<^verbatim>\<open>new Error(msg)\<close>, also used for what the network, the JSON
  parser and the browser throw (they are told apart by their message only).
\<close>

datatype exn = TypeError | Error string

text \<open>\<^verbatim>\<open>array.map(f)\<close> for a callback that may throw: the first exception ends the call.\<close>

fun mapE :: "('a \<Rightarrow> exn + 'b) \<Rightarrow> 'a list \<Rightarrow> exn + 'b list" where
  "mapE f [] = Inr []"
| "mapE f (x # xs) =
     (case f x of
        Inl e \<Rightarrow> Inl e
      | Inr y \<Rightarrow> (case mapE f xs of Inl e \<Rightarrow> Inl e | Inr ys \<Rightarrow> Inr (y # ys)))"

section \<open>The version engine\<close>

record segment =
  num :: nat
  alpha :: string

text \<open>
  \<^verbatim>\<open>seg.match(/^(\d*)(.*)$/)\<close>. The expression has no flags, so \<^verbatim>\<open>.\<close> matches any
  character but a line terminator and \<^verbatim>\<open>$\<close> matches at the end of the input only. The
  greedy \<^verbatim>\<open>(\d*)\<close> takes the longest run of leading digits and \<^verbatim>\<open>(.*)\<close> must take all
  the rest; giving digits back to \<^verbatim>\<open>(.*)\<close> never helps, as a digit is no line
  terminator. So the match is \<^verbatim>\<open>null\<close> exactly when the string holds a line
  terminator, and otherwise its groups are the leading digits and the rest.
\<close>

definition matchDigitsRest :: "string \<Rightarrow> (string \<times> string) option" where
  "matchDigitsRest s =
     (if list_ex isLineTerminator s then None
      else Some (takeWhile isDigit s, dropWhile isDigit s))"

text \<open>
  \<^verbatim>\<open>parseSegment\<close> reads \<^verbatim>\<open>m[1]\<close> and \<^verbatim>\<open>m[2]\<close> without testing \<^verbatim>\<open>m\<close>: on a
  \<^verbatim>\<open>null\<close> match it throws a TypeError.
\<close>

definition parseSegment :: "string \<Rightarrow> exn + segment" where
  "parseSegment seg =
     (case matchDigitsRest (toLowerCase (trim seg)) of
        None \<Rightarrow> Inl TypeError
      | Some (d, r) \<Rightarrow>
          Inr \<lparr>num = (if d \<noteq> [] then toNumber (parseInt10 d) else 0), alpha = r\<rparr>)"

definition compareSegments :: "segment \<Rightarrow> segment \<Rightarrow> int" where
  "compareSegments sa sb =
     (if num sa \<noteq> num sb then (if num sa < num sb then - 1 else 1)
      else if alpha sa = alpha sb then 0
      else if alpha sa = [] then - 1
      else if alpha sb = [] then 1
      else if alpha sa < alpha sb then - 1 else 1)"

definition pad :: segment where
  "pad = \<lparr>num = 0, alpha = []\<rparr>"

definition parseVersion :: "string \<Rightarrow> exn + segment list" where
  "parseVersion vstr =
     (if vstr = [] then Inr [pad]
      else mapE parseSegment (split (CHR ''.'') (trim vstr)))"

text \<open>\<^verbatim>\<open>sa[i] || pad\<close>: the segment at index \<open>i\<close>, the pad beyond the end.\<close>

definition segAt :: "segment list \<Rightarrow> nat \<Rightarrow> segment" where
  "segAt sa i = (if i < length sa then sa ! i else pad)"

text \<open>The loop \<^verbatim>\<open>for (let i = 0; i < len; i++)\<close> of \<^verbatim>\<open>compareVersions\<close>, from index \<open>i\<close>.\<close>

function compareFrom :: "segment list \<Rightarrow> segment list \<Rightarrow> nat \<Rightarrow> nat \<Rightarrow> int" where
  "compareFrom sa sb i len =
     (if i < len
      then (let c = compareSegments (segAt sa i) (segAt sb i)
            in if c \<noteq> 0 then c else compareFrom sa sb (Suc i) len)
      else 0)"
  by pat_completeness auto
termination
  by (relation "measure (\<lambda>(sa, sb, i, len). len - i)") auto

declare compareFrom.simps [simp del]

definition compareVersions :: "string \<Rightarrow> string \<Rightarrow> exn + int" where
  "compareVersions a b =
     (case parseVersion a of
        Inl e \<Rightarrow> Inl e
      | Inr sa \<Rightarrow>
          (case parseVersion b of
             Inl e \<Rightarrow> Inl e
           | Inr sb \<Rightarrow> Inr (compareFrom sa sb 0 (max (length sa) (length sb)))))"

text \<open>
  \<^verbatim>\<open>isVersionInRange\<close>. The conjunction \<^verbatim>\<open>&&\<close> does not evaluate its second
  comparison when the first one is false.
\<close>

definition isVersionInRange :: "string option \<Rightarrow> string option \<Rightarrow> string option \<Rightarrow> exn + bool" where
  "isVersionInRange target minVer maxVer =
     (if \<not> truthy target \<or> \<not> truthy minVer \<or> \<not> truthy maxVer then Inr False
      else (case compareVersions (orEmpty target) (orEmpty minVer) of
              Inl e \<Rightarrow> Inl e
            | Inr c \<Rightarrow>
                if 0 \<le> c
                then (case compareVersions (orEmpty target) (orEmpty maxVer) of
                        Inl e \<Rightarrow> Inl e
                      | Inr d \<Rightarrow> Inr (d \<le> 0))
                else Inr False))"

text \<open>
  \<^verbatim>\<open>text.match(VERSION_TOKEN_RE)\<close> with the global flag. The two alternatives of the
  expression differ in the class of the first character only (a digit, a letter), so
  together they are \<^verbatim>\<open>[0-9a-zA-Z]+(?:\.[0-9a-zA-Z]+)+\<close>. \<open>dotGroups\<close> is the greedy
  repetition of \<^verbatim>\<open>\.[0-9a-zA-Z]+\<close> (the part matched, the rest of the input);
  \<open>matchToken\<close> is one match at the start of the input; \<open>scanTokens\<close> moves through the
  input: after a match it goes on behind it, otherwise one character further.
\<close>

function dotGroups :: "string \<Rightarrow> string \<times> string" where
  "dotGroups s =
     (case s of
        [] \<Rightarrow> ([], s)
      | c # t \<Rightarrow>
          if c = CHR ''.'' \<and> takeWhile isAlnum t \<noteq> []
          then (case dotGroups (dropWhile isAlnum t) of
                  (m, r) \<Rightarrow> (c # takeWhile isAlnum t @ m, r))
          else ([], s))"
  by pat_completeness auto
termination
  by (relation "measure length") (auto simp: less_Suc_eq_le length_dropWhile_le)

declare dotGroups.simps [simp del]

definition matchToken :: "string \<Rightarrow> (string \<times> string) option" where
  "matchToken s =
     (case dotGroups (dropWhile isAlnum s) of
        (m, r) \<Rightarrow>
          if takeWhile isAlnum s \<noteq> [] \<and> m \<noteq> [] then Some (takeWhile isAlnum s @ m, r)
          else None)"

lemma dotGroups_rest_length: "length (snd (dotGroups s)) \<le> length s"
proof (induction s rule: dotGroups.induct)
  case (1 s)
  show ?case
  proof (cases s)
    case Nil
    then show ?thesis by (simp add: dotGroups.simps)
  next
    case (Cons c t)
    show ?thesis
    proof (cases "c = CHR ''.'' \<and> takeWhile isAlnum t \<noteq> []")
      case True
      with Cons 1 have "length (snd (dotGroups (dropWhile isAlnum t))) \<le> length (dropWhile isAlnum t)"
        by simp
      moreover have "length (dropWhile isAlnum t) \<le> length t"
        by (rule length_dropWhile_le)
      moreover have "snd (dotGroups s) = snd (dotGroups (dropWhile isAlnum t))"
        using Cons True by (subst dotGroups.simps) (simp split: prod.splits)
      ultimately show ?thesis using Cons by simp
    next
      case False
      then show ?thesis using Cons by (subst dotGroups.simps) auto
    qed
  qed
qed

lemma matchToken_rest_length:
  assumes "matchToken s = Some (tok, r)"
  shows "length r < length s"
proof -
  have run: "takeWhile isAlnum s \<noteq> []" and r: "r = snd (dotGroups (dropWhile isAlnum s))"
    using assms by (auto simp: matchToken_def split: prod.splits if_splits)
  have "length r \<le> length (dropWhile isAlnum s)"
    unfolding r by (rule dotGroups_rest_length)
  moreover have "length (takeWhile isAlnum s) + length (dropWhile isAlnum s) = length s"
    by (metis length_append takeWhile_dropWhile_id)
  ultimately show ?thesis using run by (cases "takeWhile isAlnum s") auto
qed

function scanTokens :: "string \<Rightarrow> string list" where
  "scanTokens s =
     (case s of
        [] \<Rightarrow> []
      | c # t \<Rightarrow>
          (case matchToken s of
             Some (tok, r) \<Rightarrow> tok # scanTokens r
           | None \<Rightarrow> scanTokens t))"
  by pat_completeness auto
termination
  by (relation "measure length") (auto dest: matchToken_rest_length)

declare scanTokens.simps [simp del]

definition extractVersionTokens :: "string \<Rightarrow> string list" where
  "extractVersionTokens text =
     (if text = [] then []
      else filter (\<lambda>t. includesStr t ''.'') (scanTokens text))"

record versionRange =
  minVersion :: "string option"
  maxVersion :: "string option"

record parsedCompatibility = versionRange +
  rawText :: string

definition parseCompatibilityString :: "string option \<Rightarrow> exn + parsedCompatibility" where
  "parseCompatibilityString text =
     (let rawText = trim (orEmpty text) in
      if rawText = [] then Inr \<lparr>minVersion = None, maxVersion = None, rawText = rawText\<rparr>
      else
        let tokens = extractVersionTokens rawText in
        if length tokens = 0
        then Inr \<lparr>minVersion = None, maxVersion = None, rawText = rawText\<rparr>
        else if length tokens = 1
        then Inr \<lparr>minVersion = Some (tokens ! 0), maxVersion = Some (tokens ! 0),
                  rawText = rawText\<rparr>
        else (case compareVersions (tokens ! 0) (tokens ! (length tokens - 1)) of
                Inl e \<Rightarrow> Inl e
              | Inr c \<Rightarrow>
                  if 0 < c
                  then Inr \<lparr>minVersion = Some (tokens ! (length tokens - 1)),
                            maxVersion = Some (tokens ! 0), rawText = rawText\<rparr>
                  else Inr \<lparr>minVersion = Some (tokens ! 0),
                            maxVersion = Some (tokens ! (length tokens - 1)),
                            rawText = rawText\<rparr>))"

section \<open>URL helpers\<close>

text \<open>\<^verbatim>\<open>s.replace(/\/$/, '')\<close>: one slash at the very end of the string is removed.\<close>

definition stripTrailingSlash :: "string \<Rightarrow> string" where
  "stripTrailingSlash s = (if s \<noteq> [] \<and> last s = CHR ''/'' then butlast s else s)"

definition normalizeVersionHistoryUrl :: "string \<Rightarrow> string" where
  "normalizeVersionHistoryUrl rawUrl =
     (let rawUrl = trim rawUrl;
          base = (if includesStr rawUrl ''/version-history''
                  then hd (split (CHR ''?'') rawUrl)
                  else stripTrailingSlash rawUrl @ ''/version-history'')
      in base @ ''?versionHistoryHosting=dataCenter'')"

record identifiers =
  addonId :: "string option"
  slug :: "string option"

text \<open>
  \<^verbatim>\<open>parts.indexOf(x)\<close> (\<open>- 1\<close> when \<open>x\<close> is absent) and \<^verbatim>\<open>parts[i]\<close>
  (\<^verbatim>\<open>undefined\<close> out of range).
\<close>

fun indexOf :: "'a list \<Rightarrow> 'a \<Rightarrow> int" where
  "indexOf [] x = - 1"
| "indexOf (y # ys) x =
     (if y = x then 0 else (let i = indexOf ys x in if i < 0 then - 1 else i + 1))"

definition at :: "'a list \<Rightarrow> int \<Rightarrow> 'a option" where
  "at xs i = (if 0 \<le> i \<and> nat i < length xs then Some (xs ! nat i) else None)"

text \<open>
  \<^verbatim>\<open>extractAddonIdentifiers\<close>. The WHATWG URL parser behind
  \<^verbatim>\<open>new URL(marketplaceUrl).pathname\<close> is not part of the repository: it is the
  parameter \<open>pathname\<close>, which gives \<open>None\<close> where the constructor throws. The
  \<^verbatim>\<open>try\<close> block turns that exception into the result without identifiers.
\<close>

definition extractAddonIdentifiers :: "(string \<Rightarrow> string option) \<Rightarrow> string \<Rightarrow> identifiers" where
  "extractAddonIdentifiers pathname marketplaceUrl =
     (case pathname marketplaceUrl of
        None \<Rightarrow> \<lparr>addonId = None, slug = None\<rparr>
      | Some p \<Rightarrow>
          let parts = filter (\<lambda>x. x \<noteq> []) (split (CHR ''/'') p);
              appsIdx = indexOf parts ''apps''
          in if 0 \<le> appsIdx
             then (case at parts (appsIdx + 1) of
                     None \<Rightarrow> \<lparr>addonId = None, slug = None\<rparr>
                   | Some i \<Rightarrow>
                       if i \<noteq> [] \<and> list_all isDigit i
                       then \<lparr>addonId = Some i,
                             slug = (case at parts (appsIdx + 2) of
                                       None \<Rightarrow> None
                                     | Some sl \<Rightarrow>
                                         if sl \<noteq> [] \<and> sl \<notin> set [''version-history'', ''overview'']
                                         then Some sl else None)\<rparr>
                       else \<lparr>addonId = None, slug = None\<rparr>)
             else \<lparr>addonId = None, slug = None\<rparr>)"

section \<open>The three acquisition methods\<close>

record rawVersion = versionRange +
  version :: string
  compatibility :: "string option"
  releaseDate :: "string option"
  releaseSummary :: "string option"

record domRow =
  rowVersion :: string
  rowCompatibility :: string
  rowReleaseDate :: string

text \<open>
  What lies outside the program is the environment \<open>env\<close>, over a state \<open>'w\<close> of the
  outside world that every call may read and change:
  \<^item> \<open>urlPathname\<close>: the URL parser, as above;
  \<^item> \<open>launchBrowser\<close>: \<^verbatim>\<open>puppeteer.launch\<close>, \<open>Some e\<close> when it rejects;
  \<^item> \<open>initialStateVersions\<close>: the page request, the search for the
    \<^verbatim>\<open>initial-state\<close> script, the JSON parser and the walk over the parsed value, up
    to the array \<^verbatim>\<open>versions\<close> of \<^verbatim>\<open>fetchFromInitialState\<close>;
  \<^item> \<open>apiVersions\<close>: the paginated requests of \<^verbatim>\<open>fetchFromAPI\<close> for a resource key, up
    to its array \<^verbatim>\<open>allVersions\<close>;
  \<^item> \<open>renderedRows\<close>: the page the browser renders and the rows read from it, up to the
    array \<^verbatim>\<open>versions\<close> of \<^verbatim>\<open>fetchFromPuppeteer\<close>.
  Each of the last three gives \<open>Inl\<close> the exception when one is thrown on the way.
  Closing the browser, the pauses and the progress callback are taken to return.
\<close>

record 'w env =
  urlPathname :: "string \<Rightarrow> string option"
  launchBrowser :: "'w \<Rightarrow> exn option \<times> 'w"
  initialStateVersions :: "string \<Rightarrow> 'w \<Rightarrow> (exn + rawVersion list) \<times> 'w"
  apiVersions :: "string \<Rightarrow> 'w \<Rightarrow> (exn + rawVersion list) \<times> 'w"
  renderedRows :: "string \<Rightarrow> 'w \<Rightarrow> (exn + domRow list) \<times> 'w"

definition fetchFromInitialState ::
  "'w env \<Rightarrow> string \<Rightarrow> 'w \<Rightarrow> (exn + rawVersion list) \<times> 'w" where
  "fetchFromInitialState E pageUrl w =
     (case initialStateVersions E pageUrl w of
        (Inl e, w') \<Rightarrow> (Inl e, w')
      | (Inr versions, w') \<Rightarrow>
          if length versions = 0
          then (Inl (Error ''No version data found in initial-state''), w')
          else (Inr versions, w'))"

text \<open>\<^verbatim>\<open>id || slug\<close>\<close>

definition resourceKey :: "identifiers \<Rightarrow> string option" where
  "resourceKey ids = (if truthy (addonId ids) then addonId ids else slug ids)"

definition fetchFromAPI ::
  "'w env \<Rightarrow> identifiers \<Rightarrow> 'w \<Rightarrow> (exn + rawVersion list) \<times> 'w" where
  "fetchFromAPI E ids w =
     (if \<not> truthy (resourceKey ids) then (Inl (Error ''No ID or slug found''), w)
      else (case apiVersions E (orEmpty (resourceKey ids)) w of
              (Inl e, w') \<Rightarrow> (Inl e, w')
            | (Inr allVersions, w') \<Rightarrow>
                if length allVersions = 0
                then (Inl (Error ''API returned 0 DC versions''), w')
                else (Inr allVersions, w')))"

definition rowToVersion :: "domRow \<Rightarrow> exn + rawVersion" where
  "rowToVersion v =
     (case parseCompatibilityString (Some (rowCompatibility v)) of
        Inl e \<Rightarrow> Inl e
      | Inr parsed \<Rightarrow>
          Inr \<lparr>minVersion = minVersion parsed, maxVersion = maxVersion parsed,
               version = rowVersion v, compatibility = Some (rowCompatibility v),
               releaseDate = Some (rowReleaseDate v), releaseSummary = None\<rparr>)"

definition fetchFromPuppeteer ::
  "'w env \<Rightarrow> string \<Rightarrow> 'w \<Rightarrow> (exn + rawVersion list) \<times> 'w" where
  "fetchFromPuppeteer E pageUrl w =
     (case renderedRows E pageUrl w of
        (Inl e, w') \<Rightarrow> (Inl e, w')
      | (Inr versions, w') \<Rightarrow>
          if length versions = 0
          then (Inl (Error ''No rows found. DOM selector mismatch.''), w')
          else (mapE rowToVersion versions, w'))"

section \<open>The orchestrator\<close>

record plugin =
  name :: string
  marketplaceUrl :: string
  currentVersion :: string

text \<open>
  The run leaves a trace of events: the launch and the closing of the browser, and each
  call of an acquisition method with the page URL or resource key it works on.
\<close>

datatype tier = InitialState | RestApi | Puppeteer

datatype event = LaunchBrowser | CloseBrowser | Attempt tier string

fun tierName :: "tier \<Rightarrow> string" where
  "tierName InitialState = ''initial-state''"
| "tierName RestApi = ''rest-api''"
| "tierName Puppeteer = ''puppeteer''"

text \<open>\<^verbatim>\<open>e.message\<close>. The text of the TypeError is the engine's (here V8's).\<close>

fun message :: "exn \<Rightarrow> string" where
  "message TypeError =
     ''Cannot read properties of null (reading '' @ [CHR 0x27] @ ''1'' @ [CHR 0x27] @ '')''"
| "message (Error m) = m"

text \<open>The entry \<^verbatim>\<open>`initial-state: ${e.message}`\<close> of the list \<^verbatim>\<open>errors\<close>, and its like.\<close>

definition tagged :: "tier \<Rightarrow> exn \<Rightarrow> string" where
  "tagged t e = tierName t @ '': '' @ message e"

record fetched =
  versions :: "rawVersion list"
  method' :: string

text \<open>
  \<^verbatim>\<open>fetchAllVersions\<close>. When every method it tried has failed it throws an Error whose
  message is the heading \<^verbatim>\<open>All methods failed:\<close> followed by the entries of
  \<^verbatim>\<open>errors\<close>, each on a line of its own behind a bullet (a character outside the
  modelled range). The model returns \<open>Inl errors\<close> for it: the list the message is built
  from.
\<close>

definition fetchAllVersions ::
  "'w env \<Rightarrow> plugin \<Rightarrow> 'w \<Rightarrow> (string list + fetched) \<times> 'w \<times> event list" where
  "fetchAllVersions E p w =
     (let pageUrl = normalizeVersionHistoryUrl (marketplaceUrl p);
          identifiers = extractAddonIdentifiers (urlPathname E) (marketplaceUrl p)
      in case fetchFromInitialState E pageUrl w of
           (Inr vs, w1) \<Rightarrow>
             (Inr \<lparr>versions = vs, method' = ''initial-state''\<rparr>, w1,
              [Attempt InitialState pageUrl])
         | (Inl e1, w1) \<Rightarrow>
             if truthy (addonId identifiers) \<or> truthy (slug identifiers)
             then (case fetchFromAPI E identifiers w1 of
                     (Inr vs, w2) \<Rightarrow>
                       (Inr \<lparr>versions = vs, method' = ''rest-api''\<rparr>, w2,
                        [Attempt InitialState pageUrl,
                         Attempt RestApi (orEmpty (resourceKey identifiers))])
                   | (Inl e2, w2) \<Rightarrow>
                       (case fetchFromPuppeteer E pageUrl w2 of
                          (Inr vs, w3) \<Rightarrow>
                            (Inr \<lparr>versions = vs, method' = ''puppeteer''\<rparr>, w3,
                             [Attempt InitialState pageUrl,
                              Attempt RestApi (orEmpty (resourceKey identifiers)),
                              Attempt Puppeteer pageUrl])
                        | (Inl e3, w3) \<Rightarrow>
                            (Inl [tagged InitialState e1, tagged RestApi e2, tagged Puppeteer e3],
                             w3,
                             [Attempt InitialState pageUrl,
                              Attempt RestApi (orEmpty (resourceKey identifiers)),
                              Attempt Puppeteer pageUrl])))
             else (case fetchFromPuppeteer E pageUrl w1 of
                     (Inr vs, w3) \<Rightarrow>
                       (Inr \<lparr>versions = vs, method' = ''puppeteer''\<rparr>, w3,
                        [Attempt InitialState pageUrl, Attempt Puppeteer pageUrl])
                   | (Inl e3, w3) \<Rightarrow>
                       (Inl [tagged InitialState e1, tagged Puppeteer e3],
                        w3,
                        [Attempt InitialState pageUrl, Attempt Puppeteer pageUrl])))"

section \<open>The result builder\<close>

record compatibleEntry =
  pluginVersion :: string
  compatibilityRange :: string
  entryCompatibility :: string
  entryReleaseDate :: string
  entryReleaseSummary :: string

text \<open>
  What the \<^verbatim>\<open>catch\<close> of \<^verbatim>\<open>checkCompatibility\<close> can receive: the error of
  \<^verbatim>\<open>fetchAllVersions\<close> (with the list its message is built from) or an exception
  thrown while the result was built. The field \<^verbatim>\<open>error\<close> of a result holds the
  message of that exception; the model keeps the exception.
\<close>

datatype failure = AllMethodsFailed "string list" | Thrown exn

text \<open>
  A key that a result object does not have (\<^verbatim>\<open>totalVersionsChecked\<close>,
  \<^verbatim>\<open>allVersions\<close> and \<^verbatim>\<open>parseWarnings\<close> of a failed result) is \<open>None\<close>, as is a
  value that is \<^verbatim>\<open>null\<close>.
\<close>

record pluginResult =
  pluginName :: string
  pluginUrl :: string
  resultCurrentVersion :: string
  targetDCVersion :: string
  fetchMethod :: string
  compatible :: "bool option"
  compatibleVersions :: "compatibleEntry list"
  compatibleVersionRange :: "string option"
  recommendedVersion :: "string option"
  totalVersionsChecked :: "nat option"
  allVersions :: "rawVersion list option"
  parseWarnings :: "string list option"
  error :: "failure option"

text \<open>The bounds of a record, parsed again from its text when one of them is missing.\<close>

definition resolveBounds :: "rawVersion \<Rightarrow> exn + string option \<times> string option" where
  "resolveBounds v =
     (if \<not> truthy (minVersion v) \<or> \<not> truthy (maxVersion v)
      then (case parseCompatibilityString (compatibility v) of
              Inl e \<Rightarrow> Inl e
            | Inr parsed \<Rightarrow> Inr (minVersion parsed, maxVersion parsed))
      else Inr (minVersion v, maxVersion v))"

definition mkEntry :: "rawVersion \<Rightarrow> string \<Rightarrow> string \<Rightarrow> compatibleEntry" where
  "mkEntry v mn mx =
     \<lparr>pluginVersion = version v,
      compatibilityRange = mn @ '' - '' @ mx,
      entryCompatibility =
        (if truthy (compatibility v) then orEmpty (compatibility v) else mn @ '' - '' @ mx),
      entryReleaseDate = orEmpty (releaseDate v),
      entryReleaseSummary = orEmpty (releaseSummary v)\<rparr>"

text \<open>
  The loop \<^verbatim>\<open>for (const v of rawVersions)\<close>: \<open>acc\<close> is the array
  \<^verbatim>\<open>compatibleVersions\<close> so far.
\<close>

fun collectCompatible ::
  "string \<Rightarrow> compatibleEntry list \<Rightarrow> rawVersion list \<Rightarrow> exn + compatibleEntry list" where
  "collectCompatible target acc [] = Inr acc"
| "collectCompatible target acc (v # vs) =
     (case resolveBounds v of
        Inl e \<Rightarrow> Inl e
      | Inr (mn, mx) \<Rightarrow>
          if \<not> truthy mn \<or> \<not> truthy mx then collectCompatible target acc vs
          else (case isVersionInRange (Some target) mn mx of
                  Inl e \<Rightarrow> Inl e
                | Inr inRange \<Rightarrow>
                    if inRange
                    then collectCompatible target (acc @ [mkEntry v (orEmpty mn) (orEmpty mx)]) vs
                    else collectCompatible target acc vs))"

text \<open>\<^verbatim>\<open>array.some(p)\<close> for a callback that may throw: it stops at the first hit.\<close>

fun someE :: "('a \<Rightarrow> exn + bool) \<Rightarrow> 'a list \<Rightarrow> exn + bool" where
  "someE p [] = Inr False"
| "someE p (x # xs) =
     (case p x of
        Inl e \<Rightarrow> Inl e
      | Inr b \<Rightarrow> if b then Inr True else someE p xs)"

text \<open>
  \<^verbatim>\<open>array.sort(cmp)\<close>. The standard asks for a stable sort and leaves the algorithm
  open; the model is insertion sort, which keeps elements that compare equal in their
  order. With a comparator that is a total preorder wherever it returns (shown below for
  \<^verbatim>\<open>compareVersions\<close>) every conforming sort returns this array. An exception of the
  comparator ends the sort; with two or more elements every element is compared at least
  once, by this sort as by any other.
\<close>

fun insertE :: "('a \<Rightarrow> 'a \<Rightarrow> exn + int) \<Rightarrow> 'a \<Rightarrow> 'a list \<Rightarrow> exn + 'a list" where
  "insertE cmp x [] = Inr [x]"
| "insertE cmp x (y # ys) =
     (case cmp x y of
        Inl e \<Rightarrow> Inl e
      | Inr c \<Rightarrow>
          if c \<le> 0 then Inr (x # y # ys)
          else (case insertE cmp x ys of Inl e \<Rightarrow> Inl e | Inr zs \<Rightarrow> Inr (y # zs)))"

fun sortE :: "('a \<Rightarrow> 'a \<Rightarrow> exn + int) \<Rightarrow> 'a list \<Rightarrow> exn + 'a list" where
  "sortE cmp [] = Inr []"
| "sortE cmp (x # xs) =
     (case sortE cmp xs of Inl e \<Rightarrow> Inl e | Inr ys \<Rightarrow> insertE cmp x ys)"

definition descending :: "compatibleEntry \<Rightarrow> compatibleEntry \<Rightarrow> exn + int" where
  "descending a b = compareVersions (pluginVersion b) (pluginVersion a)"

definition ascending :: "compatibleEntry \<Rightarrow> compatibleEntry \<Rightarrow> exn + int" where
  "ascending a b = compareVersions (pluginVersion a) (pluginVersion b)"

definition equalsCurrent :: "string \<Rightarrow> compatibleEntry \<Rightarrow> exn + bool" where
  "equalsCurrent current cv =
     (case compareVersions (pluginVersion cv) current of
        Inl e \<Rightarrow> Inl e
      | Inr c \<Rightarrow> Inr (c = 0))"

text \<open>
  \<^verbatim>\<open>buildResult\<close>. The first sort works in place, so from then on the array
  \<^verbatim>\<open>compatibleVersions\<close> is \<open>cvs'\<close>; the second sort works on a copy.
\<close>

definition buildResult ::
  "plugin \<Rightarrow> rawVersion list \<Rightarrow> string \<Rightarrow> string \<Rightarrow> exn + pluginResult" where
  "buildResult p rawVersions target fetchedBy =
     (case collectCompatible target [] rawVersions of
        Inl e \<Rightarrow> Inl e
      | Inr cvs \<Rightarrow>
     (case someE (equalsCurrent (currentVersion p)) cvs of
        Inl e \<Rightarrow> Inl e
      | Inr isCurrentVersionCompatible \<Rightarrow>
     (case (if 0 < length cvs then sortE descending cvs else Inr cvs) of
        Inl e \<Rightarrow> Inl e
      | Inr cvs' \<Rightarrow>
     (case (if 0 < length cvs' then sortE ascending cvs' else Inr cvs') of
        Inl e \<Rightarrow> Inl e
      | Inr sorted' \<Rightarrow>
          Inr \<lparr>pluginName = name p,
               pluginUrl = marketplaceUrl p,
               resultCurrentVersion = currentVersion p,
               targetDCVersion = target,
               fetchMethod = fetchedBy,
               compatible = Some isCurrentVersionCompatible,
               compatibleVersions = cvs',
               compatibleVersionRange =
                 (if 0 < length cvs'
                  then (let v1 = pluginVersion (sorted' ! 0);
                            v2 = pluginVersion (sorted' ! (length sorted' - 1))
                        in Some (if v1 = v2 then v1 else v1 @ '' - '' @ v2))
                  else None),
               recommendedVersion =
                 (if 0 < length cvs then Some (pluginVersion (cvs' ! 0)) else None),
               totalVersionsChecked = Some (length rawVersions),
               allVersions = Some rawVersions,
               parseWarnings = Some [],
               error = None\<rparr>))))"

section \<open>The batch\<close>

definition failedResult :: "plugin \<Rightarrow> string \<Rightarrow> failure \<Rightarrow> pluginResult" where
  "failedResult p target err =
     \<lparr>pluginName = name p,
      pluginUrl = marketplaceUrl p,
      resultCurrentVersion = currentVersion p,
      targetDCVersion = target,
      fetchMethod = ''failed'',
      compatible = None,
      compatibleVersions = [],
      compatibleVersionRange = None,
      recommendedVersion = None,
      totalVersionsChecked = None,
      allVersions = None,
      parseWarnings = None,
      error = Some err\<rparr>"

text \<open>
  The body of the loop of \<^verbatim>\<open>checkCompatibility\<close>: one plugin, with its \<^verbatim>\<open>try\<close>,
  which spans the acquisition and the building of the result. The target is a string; a
  target that is missing (\<^verbatim>\<open>undefined\<close>) is the empty string here: the code reads the
  target in \<^verbatim>\<open>isVersionInRange\<close>, where both are falsy, and copies it into the
  result.
\<close>

definition processPlugin ::
  "'w env \<Rightarrow> plugin \<Rightarrow> string \<Rightarrow> 'w \<Rightarrow> pluginResult \<times> 'w \<times> event list" where
  "processPlugin E p target w =
     (case fetchAllVersions E p w of
        (Inl errors, w', evs) \<Rightarrow> (failedResult p target (AllMethodsFailed errors), w', evs)
      | (Inr f, w', evs) \<Rightarrow>
          (case buildResult p (versions f) target (method' f) of
             Inl e \<Rightarrow> (failedResult p target (Thrown e), w', evs)
           | Inr result \<Rightarrow> (result, w', evs)))"

fun processAll ::
  "'w env \<Rightarrow> plugin list \<Rightarrow> string \<Rightarrow> 'w \<Rightarrow> pluginResult list \<times> 'w \<times> event list" where
  "processAll E [] target w = ([], w, [])"
| "processAll E (p # ps) target w =
     (case processPlugin E p target w of
        (result, w1, evs1) \<Rightarrow>
          (case processAll E ps target w1 of
             (results, w2, evs2) \<Rightarrow> (result # results, w2, evs1 @ evs2)))"

definition checkCompatibility ::
  "'w env \<Rightarrow> plugin list \<Rightarrow> string \<Rightarrow> 'w \<Rightarrow> (exn + pluginResult list) \<times> 'w \<times> event list" where
  "checkCompatibility E plugins target w =
     (case launchBrowser E w of
        (Some e, w0) \<Rightarrow> (Inl e, w0, [LaunchBrowser])
      | (None, w0) \<Rightarrow>
          (case processAll E plugins target w0 of
             (results, w1, evs) \<Rightarrow> (Inr results, w1, LaunchBrowser # evs @ [CloseBrowser])))"

section \<open>Vocabulary of the statements\<close>

text \<open>\<open>parses s\<close>: \<^verbatim>\<open>parseVersion(s)\<close> returns, it does not throw.\<close>

definition parses :: "string \<Rightarrow> bool" where
  "parses s = (case parseVersion s of Inl e \<Rightarrow> False | Inr sa \<Rightarrow> True)"

text \<open>The acquisition methods a trace shows to have been called, in the order of the calls.\<close>

fun attemptTier :: "event \<Rightarrow> tier list" where
  "attemptTier (Attempt t u) = [t]"
| "attemptTier LaunchBrowser = []"
| "attemptTier CloseBrowser = []"

definition attempts :: "event list \<Rightarrow> tier list" where
  "attempts evs = concat (map attemptTier evs)"

text \<open>
  The fallback chain in the words of the specification (section 4.7), to be compared with
  \<open>fetchAllVersions\<close>. \<open>planned\<close> are the methods in their fixed order, the REST method
  left out when neither an id nor a slug was resolved; \<open>runTier\<close> is the call of one
  method and \<open>tierTarget\<close> the URL or key it is called with; \<open>firstSuccess\<close> tries the
  methods one after the other, stops at the first that returns, and collects the tagged
  reason of every failure, which it returns when no method is left.
\<close>

definition planned :: "'w env \<Rightarrow> plugin \<Rightarrow> tier list" where
  "planned E p =
     (let ids = extractAddonIdentifiers (urlPathname E) (marketplaceUrl p)
      in [InitialState] @ (if truthy (addonId ids) \<or> truthy (slug ids) then [RestApi] else [])
         @ [Puppeteer])"

fun runTier :: "'w env \<Rightarrow> plugin \<Rightarrow> tier \<Rightarrow> 'w \<Rightarrow> (exn + rawVersion list) \<times> 'w" where
  "runTier E p InitialState w =
     fetchFromInitialState E (normalizeVersionHistoryUrl (marketplaceUrl p)) w"
| "runTier E p RestApi w =
     fetchFromAPI E (extractAddonIdentifiers (urlPathname E) (marketplaceUrl p)) w"
| "runTier E p Puppeteer w =
     fetchFromPuppeteer E (normalizeVersionHistoryUrl (marketplaceUrl p)) w"

fun tierTarget :: "'w env \<Rightarrow> plugin \<Rightarrow> tier \<Rightarrow> string" where
  "tierTarget E p RestApi =
     orEmpty (resourceKey (extractAddonIdentifiers (urlPathname E) (marketplaceUrl p)))"
| "tierTarget E p t = normalizeVersionHistoryUrl (marketplaceUrl p)"

fun firstSuccess ::
  "'w env \<Rightarrow> plugin \<Rightarrow> tier list \<Rightarrow> string list \<Rightarrow> event list \<Rightarrow> 'w
     \<Rightarrow> (string list + fetched) \<times> 'w \<times> event list" where
  "firstSuccess E p [] errors evs w = (Inl errors, w, evs)"
| "firstSuccess E p (t # ts) errors evs w =
     (case runTier E p t w of
        (Inr vs, w') \<Rightarrow>
          (Inr \<lparr>versions = vs, method' = tierName t\<rparr>, w', evs @ [Attempt t (tierTarget E p t)])
      | (Inl e, w') \<Rightarrow>
          firstSuccess E p ts (errors @ [tagged t e]) (evs @ [Attempt t (tierTarget E p t)]) w')"

text \<open>
  The result builder in the words of the specification (section 4.8). \<open>bounds v\<close> are
  the bounds of a record after the fallback to its compatibility text; \<open>keeps target v\<close>
  says that both are resolved and that the target lies in the range; \<open>entryOf v\<close> is
  the entry built for a record that is kept.
\<close>

definition bounds :: "rawVersion \<Rightarrow> string option \<times> string option" where
  "bounds v = (case resolveBounds v of Inr b \<Rightarrow> b | Inl e \<Rightarrow> (None, None))"

definition keeps :: "string \<Rightarrow> rawVersion \<Rightarrow> bool" where
  "keeps target v =
     (truthy (fst (bounds v)) \<and> truthy (snd (bounds v))
      \<and> isVersionInRange (Some target) (fst (bounds v)) (snd (bounds v)) = Inr True)"

definition entryOf :: "rawVersion \<Rightarrow> compatibleEntry" where
  "entryOf v = mkEntry v (orEmpty (fst (bounds v))) (orEmpty (snd (bounds v)))"

text \<open>
  \<open>notAfter cmp a b\<close>: the comparator returns for \<open>a\<close> and \<open>b\<close> and does not put \<open>a\<close>
  behind \<open>b\<close>. \<open>preorderE cmp\<close>: where the comparator returns, swapping its operands
  negates the result and \<open>notAfter\<close> is transitive.
\<close>

definition notAfter :: "('a \<Rightarrow> 'a \<Rightarrow> exn + int) \<Rightarrow> 'a \<Rightarrow> 'a \<Rightarrow> bool" where
  "notAfter cmp a b = (case cmp a b of Inl e \<Rightarrow> False | Inr c \<Rightarrow> c \<le> 0)"

definition preorderE :: "('a \<Rightarrow> 'a \<Rightarrow> exn + int) \<Rightarrow> bool" where
  "preorderE cmp =
     ((\<forall>a b c. cmp a b = Inr c \<longrightarrow> cmp b a = Inr (- c))
      \<and> (\<forall>a b c. notAfter cmp a b \<and> notAfter cmp b c \<longrightarrow> notAfter cmp a c))"

text \<open>
  \<open>keptVersions\<close>: the versions of the records kept, in the order of the records.
  \<open>versionMaximal v vs\<close>: \<open>v\<close> is one of \<open>vs\<close> and no version of \<open>vs\<close> comes behind it
  under \<^verbatim>\<open>compareVersions\<close>; \<open>versionMinimal\<close> likewise.
\<close>

definition keptVersions :: "string \<Rightarrow> rawVersion list \<Rightarrow> string list" where
  "keptVersions target rawVersions = map version (filter (keeps target) rawVersions)"

definition versionMaximal :: "string \<Rightarrow> string list \<Rightarrow> bool" where
  "versionMaximal v vs = (List.member vs v \<and> list_all (\<lambda>u. notAfter compareVersions u v) vs)"

definition versionMinimal :: "string \<Rightarrow> string list \<Rightarrow> bool" where
  "versionMinimal v vs = (List.member vs v \<and> list_all (\<lambda>u. notAfter compareVersions v u) vs)"

section \<open>Example inputs\<close>

text \<open>
  Three records with the versions 1.0, 2.0 and 3.0, of which the last two cover the
  target 8.5; a plugin at version 1.0; and two environments (over a world without
  state). In \<open>restEnv\<close> the page request fails and the REST API answers; in \<open>pageEnv\<close>
  the page of the plugin \<open>scriptrunner\<close> holds the three records and every other
  request fails.
\<close>

definition record10 :: rawVersion where
  "record10 = \<lparr>minVersion = Some ''7.0'', maxVersion = Some ''8.0'', version = ''1.0'',
     compatibility = Some ''7.0 - 8.0'', releaseDate = Some ''2022-01-01'',
     releaseSummary = None\<rparr>"

definition record20 :: rawVersion where
  "record20 = \<lparr>minVersion = Some ''8.0'', maxVersion = Some ''9.0'', version = ''2.0'',
     compatibility = Some ''8.0 - 9.0'', releaseDate = Some ''2023-01-01'',
     releaseSummary = None\<rparr>"

definition record30 :: rawVersion where
  "record30 = \<lparr>minVersion = None, maxVersion = None, version = ''3.0'',
     compatibility = Some ''Confluence Data Center 8.0 - 9.0'',
     releaseDate = Some ''2024-01-01'', releaseSummary = None\<rparr>"

definition scriptrunner :: plugin where
  "scriptrunner = \<lparr>name = ''ScriptRunner'',
     marketplaceUrl = ''https://m.example/apps/12/scriptrunner'', currentVersion = ''1.0''\<rparr>"

definition otherPlugin :: plugin where
  "otherPlugin = \<lparr>name = ''Other'',
     marketplaceUrl = ''https://m.example/apps/34/other'', currentVersion = ''1.0''\<rparr>"

definition restEnv :: "unit env" where
  "restEnv = \<lparr>urlPathname = (\<lambda>u. Some (drop 17 u)),
     launchBrowser = (\<lambda>w. (None, w)),
     initialStateVersions = (\<lambda>u w. (Inl (Error ''HTTP 404''), w)),
     apiVersions = (\<lambda>k w. (Inr [record20], w)),
     renderedRows = (\<lambda>u w. (Inl (Error ''Timeout''), w))\<rparr>"

definition pageEnv :: "unit env" where
  "pageEnv = \<lparr>urlPathname = (\<lambda>u. Some (drop 17 u)),
     launchBrowser = (\<lambda>w. (None, w)),
     initialStateVersions =
       (\<lambda>u w. if u = ''https://m.example/apps/12/scriptrunner/version-history?versionHistoryHosting=dataCenter''
              then (Inr [record10, record20, record30], w)
              else (Inl (Error ''HTTP 404''), w)),
     apiVersions = (\<lambda>k w. (Inl (Error ''HTTP 404''), w)),
     renderedRows = (\<lambda>u w. (Inl (Error ''Timeout''), w))\<rparr>"

section \<open>The comparator is a total preorder on the versions it can parse\<close>

lemma compareSegments_range: "compareSegments a b = - 1 \<or> compareSegments a b = 0 \<or> compareSegments a b = 1"
  by (simp add: compareSegments_def)

lemma compareSegments_antisym: "compareSegments b a = - compareSegments a b"
  by (auto simp: compareSegments_def)

lemma compareSegments_eq0: "(compareSegments a b = 0) = (a = b)"
  by (cases a, cases b) (auto simp: compareSegments_def)

lemma compareSegments_trans:
  "compareSegments a b \<le> 0 \<Longrightarrow> compareSegments b c \<le> 0 \<Longrightarrow> compareSegments a c \<le> 0"
  by (auto simp: compareSegments_def split: if_splits)

lemma compareFrom_step:
  "i < n \<Longrightarrow> compareFrom sa sb i n =
     (if compareSegments (segAt sa i) (segAt sb i) \<noteq> 0
      then compareSegments (segAt sa i) (segAt sb i) else compareFrom sa sb (Suc i) n)"
  by (subst compareFrom.simps) (simp add: Let_def)

lemma compareFrom_done: "\<not> i < n \<Longrightarrow> compareFrom sa sb i n = 0"
  by (subst compareFrom.simps) simp

lemma compareFrom_range:
  "compareFrom sa sb i n = - 1 \<or> compareFrom sa sb i n = 0 \<or> compareFrom sa sb i n = 1"
proof (induction "n - i" arbitrary: i)
  case 0
  then show ?case by (simp add: compareFrom_done)
next
  case (Suc k)
  then have "i < n" and IH: "compareFrom sa sb (Suc i) n = - 1 \<or> compareFrom sa sb (Suc i) n = 0
      \<or> compareFrom sa sb (Suc i) n = 1"
    by simp_all
  then show ?case
    using compareSegments_range [of "segAt sa i" "segAt sb i"] by (auto simp: compareFrom_step)
qed

lemma compareFrom_antisym: "compareFrom sb sa i n = - compareFrom sa sb i n"
proof (induction "n - i" arbitrary: i)
  case 0
  then show ?case by (simp add: compareFrom_done)
next
  case (Suc k)
  then have lt: "i < n" and IH: "compareFrom sb sa (Suc i) n = - compareFrom sa sb (Suc i) n"
    by simp_all
  have "compareSegments (segAt sb i) (segAt sa i) = - compareSegments (segAt sa i) (segAt sb i)"
    by (rule compareSegments_antisym)
  with lt IH show ?case by (simp add: compareFrom_step)
qed

lemma compareFrom_refl: "compareFrom sa sa i n = 0"
proof (induction "n - i" arbitrary: i)
  case 0
  then show ?case by (simp add: compareFrom_done)
next
  case (Suc k)
  then have "i < n" "compareFrom sa sa (Suc i) n = 0" by simp_all
  then show ?case by (simp add: compareFrom_step compareSegments_eq0)
qed

lemma compareFrom_beyond:
  "max (length sa) (length sb) \<le> i \<Longrightarrow> compareFrom sa sb i n = 0"
proof (induction "n - i" arbitrary: i)
  case 0
  then show ?case by (simp add: compareFrom_done)
next
  case (Suc k)
  then have "i < n" "compareFrom sa sb (Suc i) n = 0" by simp_all
  moreover have "segAt sa i = segAt sb i" using Suc.prems by (simp add: segAt_def)
  ultimately show ?case by (simp add: compareFrom_step compareSegments_eq0)
qed

lemma compareFrom_ext:
  "max (length sa) (length sb) \<le> n \<Longrightarrow>
   compareFrom sa sb i n = compareFrom sa sb i (max (length sa) (length sb))"
proof (induction "n - i" arbitrary: i)
  case 0
  then have "max (length sa) (length sb) \<le> i" by simp
  then show ?case by (simp add: compareFrom_beyond)
next
  case (Suc k)
  show ?case
  proof (cases "i < max (length sa) (length sb)")
    case True
    then have "i < n" using Suc.prems by linarith
    moreover have "compareFrom sa sb (Suc i) n
        = compareFrom sa sb (Suc i) (max (length sa) (length sb))"
      using Suc by simp
    ultimately show ?thesis
      using True by (simp only: compareFrom_step)
  next
    case False
    then have "max (length sa) (length sb) \<le> i" by linarith
    then show ?thesis by (simp only: compareFrom_beyond)
  qed
qed

lemma compareFrom_trans:
  "compareFrom sa sb i n \<le> 0 \<Longrightarrow> compareFrom sb sc i n \<le> 0 \<Longrightarrow> compareFrom sa sc i n \<le> 0"
proof (induction "n - i" arbitrary: i)
  case 0
  then show ?case by (subst compareFrom.simps) simp
next
  case (Suc k)
  then have lt: "i < n" by simp
  let ?ab = "compareSegments (segAt sa i) (segAt sb i)"
  let ?bc = "compareSegments (segAt sb i) (segAt sc i)"
  let ?ac = "compareSegments (segAt sa i) (segAt sc i)"
  have ab: "compareFrom sa sb i n = (if ?ab \<noteq> 0 then ?ab else compareFrom sa sb (Suc i) n)"
    using lt by (subst compareFrom.simps) (simp add: Let_def)
  have bc: "compareFrom sb sc i n = (if ?bc \<noteq> 0 then ?bc else compareFrom sb sc (Suc i) n)"
    using lt by (subst compareFrom.simps) (simp add: Let_def)
  have ac: "compareFrom sa sc i n = (if ?ac \<noteq> 0 then ?ac else compareFrom sa sc (Suc i) n)"
    using lt by (subst compareFrom.simps) (simp add: Let_def)
  have IH: "compareFrom sa sb (Suc i) n \<le> 0 \<Longrightarrow> compareFrom sb sc (Suc i) n \<le> 0
            \<Longrightarrow> compareFrom sa sc (Suc i) n \<le> 0"
    using Suc.hyps(1) [of "Suc i"] Suc.hyps(2) by simp
  have le_ab: "?ab \<le> 0" using Suc.prems(1) ab compareFrom_range [of sa sb "Suc i" n]
    by (auto split: if_splits)
  have le_bc: "?bc \<le> 0" using Suc.prems(2) bc by (auto split: if_splits)
  have le_ac: "?ac \<le> 0" using le_ab le_bc by (rule compareSegments_trans)
  show ?case
  proof (cases "?ac = 0")
    case False
    with le_ac ac show ?thesis by simp
  next
    case True
    then have eq: "segAt sa i = segAt sc i" by (simp add: compareSegments_eq0)
    have "?bc = - ?ab" using eq compareSegments_antisym [of "segAt sb i" "segAt sa i"] by simp
    with le_ab le_bc have z: "?ab = 0" "?bc = 0" by auto
    with ab bc Suc.prems have "compareFrom sa sb (Suc i) n \<le> 0" "compareFrom sb sc (Suc i) n \<le> 0"
      by auto
    then have "compareFrom sa sc (Suc i) n \<le> 0" by (rule IH)
    with True ac show ?thesis by simp
  qed
qed


lemmas js_eval =
  trim_def isWhiteSpace_def charCode_def toLowerCase_def toLowerChar_def
  isLineTerminator_def isDigit_def isAlnum_def parseInt10_def toNumber_def Let_def

lemmas version_eval =
  compareVersions_def parseVersion_def parseSegment_def matchDigitsRest_def
  compareFrom.simps segAt_def compareSegments_def pad_def











section \<open>Where the comparator throws and where it returns\<close>

lemma mapE_Inl: "mapE f xs = Inl e \<Longrightarrow> \<exists>x \<in> set xs. f x = Inl e"
  by (induction xs) (auto split: sum.splits)

lemma mapE_Inr: "(\<And>x. x \<in> set xs \<Longrightarrow> \<exists>y. f x = Inr y) \<Longrightarrow> \<exists>ys. mapE f xs = Inr ys"
proof (induction xs)
  case Nil
  then show ?case by simp
next
  case (Cons x xs)
  then obtain y ys where "f x = Inr y" "mapE f xs = Inr ys" by (meson list.set_intros)
  then show ?case by simp
qed

lemma mapE_length: "mapE f xs = Inr ys \<Longrightarrow> length ys = length xs"
  by (induction xs arbitrary: ys) (auto split: sum.splits)

lemma parseSegment_Inl: "parseSegment s = Inl e \<Longrightarrow> e = TypeError"
  by (auto simp: parseSegment_def split: option.splits)

lemma parseVersion_Inl: "parseVersion s = Inl e \<Longrightarrow> e = TypeError"
  by (auto simp: parseVersion_def split: if_splits dest!: mapE_Inl parseSegment_Inl)

lemma parses_iff: "parses s = (\<exists>sa. parseVersion s = Inr sa)"
  by (simp add: parses_def split: sum.splits)

lemma not_parses_iff: "(\<not> parses s) = (parseVersion s = Inl TypeError)"
  using parseVersion_Inl [of s] by (cases "parseVersion s") (auto simp: parses_def)

lemma compareVersions_Inl: "compareVersions a b = Inl e \<Longrightarrow> e = TypeError"
  by (auto simp: compareVersions_def split: sum.splits dest: parseVersion_Inl)

lemma compareVersions_parsed:
  "parseVersion a = Inr sa \<Longrightarrow> parseVersion b = Inr sb \<Longrightarrow>
   compareVersions a b = Inr (compareFrom sa sb 0 (max (length sa) (length sb)))"
  by (simp add: compareVersions_def)

lemma compareVersions_Inr_iff: "(\<exists>c. compareVersions a b = Inr c) = (parses a \<and> parses b)"
  by (auto simp: compareVersions_def parses_def split: sum.splits)

lemma compareVersions_Inl_iff:
  "(compareVersions a b = Inl TypeError) = (\<not> parses a \<or> \<not> parses b)"
  using compareVersions_Inr_iff [of a b] compareVersions_Inl [of a b]
  by (cases "compareVersions a b") auto

lemma compareVersions_antisym:
  assumes "compareVersions a b = Inr c"
  shows "compareVersions b a = Inr (- c)"
proof -
  from assms obtain sa sb where sa: "parseVersion a = Inr sa" and sb: "parseVersion b = Inr sb"
    and c: "c = compareFrom sa sb 0 (max (length sa) (length sb))"
    by (auto simp: compareVersions_def split: sum.splits)
  have "compareFrom sb sa 0 (max (length sb) (length sa)) = - c"
    unfolding c by (simp only: max.commute [of "length sb"] compareFrom_antisym [of sb sa])
  then show ?thesis using sa sb by (simp add: compareVersions_def)
qed

lemma compareVersions_refl: "parses a \<Longrightarrow> compareVersions a a = Inr 0"
  by (auto simp: parses_iff compareVersions_def compareFrom_refl)

lemma compareVersions_range:
  "compareVersions a b = Inr c \<Longrightarrow> c = - 1 \<or> c = 0 \<or> c = 1"
  using compareFrom_range by (auto simp: compareVersions_def split: sum.splits)

lemma compareVersions_trans:
  assumes "compareVersions a b = Inr c1" and "compareVersions b c = Inr c2"
    and "c1 \<le> 0" and "c2 \<le> 0"
  shows "\<exists>c3. compareVersions a c = Inr c3 \<and> c3 \<le> 0"
proof -
  from assms(1) obtain sa sb where sa: "parseVersion a = Inr sa" and sb: "parseVersion b = Inr sb"
    by (auto simp: compareVersions_def split: sum.splits)
  from assms(2) obtain sc where sc: "parseVersion c = Inr sc"
    by (auto simp: compareVersions_def split: sum.splits)
  let ?n = "max (length sa) (max (length sb) (length sc))"
  have ab: "compareFrom sa sb 0 ?n = c1"
    using assms(1) sa sb compareFrom_ext [of sa sb ?n 0] by (simp add: compareVersions_def)
  have bc: "compareFrom sb sc 0 ?n = c2"
    using assms(2) sb sc compareFrom_ext [of sb sc ?n 0] by (simp add: compareVersions_def)
  have "compareFrom sa sc 0 ?n \<le> 0"
    using ab bc assms(3,4) compareFrom_trans [of sa sb 0 ?n sc] by simp
  moreover have "compareFrom sa sc 0 ?n = compareFrom sa sc 0 (max (length sa) (length sc))"
    by (rule compareFrom_ext) simp
  ultimately show ?thesis using sa sc by (simp add: compareVersions_def)
qed

text \<open>A string without a line terminator parses.\<close>

lemma set_trim: "set (trim s) \<subseteq> set s"
proof -
  have "set (dropWhile isWhiteSpace (rev (dropWhile isWhiteSpace s))) \<subseteq> set (dropWhile isWhiteSpace s)"
    using set_dropWhileD [of _ isWhiteSpace "rev (dropWhile isWhiteSpace s)"] by auto
  moreover have "set (dropWhile isWhiteSpace s) \<subseteq> set s"
    using set_dropWhileD [of _ isWhiteSpace s] by auto
  ultimately show ?thesis by (auto simp: trim_def)
qed

lemma split_nonempty: "split sep s \<noteq> []"
  by (induction s) (auto simp: Let_def)

lemma set_split: "x \<in> set (split sep s) \<Longrightarrow> set x \<subseteq> set s"
proof (induction s arbitrary: x)
  case Nil
  then show ?case by simp
next
  case (Cons c cs)
  obtain p ps where ps: "split sep cs = p # ps"
    using split_nonempty [of sep cs] by (cases "split sep cs") auto
  have "set p \<subseteq> set cs" "\<And>y. y \<in> set ps \<Longrightarrow> set y \<subseteq> set cs"
    using Cons.IH ps by auto
  then show ?case using Cons.prems ps by (auto simp: Let_def split: if_splits)
qed

lemma toLowerChar_line: "isLineTerminator (toLowerChar c) \<Longrightarrow> isLineTerminator c"
  by (auto simp: toLowerChar_def isLineTerminator_def charCode_def split: if_splits)

lemma parseSegment_line_free:
  assumes "\<And>c. c \<in> set s \<Longrightarrow> \<not> isLineTerminator c"
  shows "\<exists>g. parseSegment s = Inr g"
proof -
  have "\<not> list_ex isLineTerminator (toLowerCase (trim s))"
    using assms set_trim [of s] toLowerChar_line
    by (auto simp: list_ex_iff toLowerCase_def)
  then show ?thesis by (simp add: parseSegment_def matchDigitsRest_def)
qed

lemma parses_line_free:
  assumes "\<And>c. c \<in> set s \<Longrightarrow> \<not> isLineTerminator c"
  shows "parses s"
proof (cases "s = []")
  case True
  then show ?thesis by (simp add: parses_def parseVersion_def)
next
  case False
  have "\<exists>ys. mapE parseSegment (split (CHR ''.'') (trim s)) = Inr ys"
  proof (rule mapE_Inr)
    fix x assume "x \<in> set (split (CHR ''.'') (trim s))"
    then have "set x \<subseteq> set s" using set_split set_trim by fastforce
    then show "\<exists>y. parseSegment x = Inr y" using assms by (intro parseSegment_line_free) auto
  qed
  then show ?thesis using False by (auto simp: parses_def parseVersion_def)
qed

section \<open>The comparator on all strings\<close>

text \<open>
  On the versions that parse, \<^verbatim>\<open>compareVersions\<close> is a total preorder with results
  in \<open>{- 1, 0, 1}\<close>: every pair is comparable, swapping the operands negates the result,
  a version compares equal to itself, and the order is transitive.
\<close>

lemma compareVersions_total_preorder:
  assumes "parses a" and "parses b" and "parses c"
  shows "(\<exists>r. compareVersions a b = Inr r \<and> (r = - 1 \<or> r = 0 \<or> r = 1)
              \<and> compareVersions b a = Inr (- r))
         \<and> compareVersions a a = Inr 0
         \<and> (\<forall>r s. compareVersions a b = Inr r \<and> compareVersions b c = Inr s \<and> r \<le> 0 \<and> s \<le> 0
                \<longrightarrow> (\<exists>t. compareVersions a c = Inr t \<and> t \<le> 0))"
proof -
  obtain r where r: "compareVersions a b = Inr r"
    using assms compareVersions_Inr_iff by blast
  then show ?thesis
    using assms(1) compareVersions_range [OF r] compareVersions_antisym [OF r]
      compareVersions_refl compareVersions_trans
    by blast
qed

text \<open>
  Claim C4. The claim holds for the strings that parse (above), and it asks for more:
  a result for every pair of strings. A string with a line terminator inside one of its
  segments has none. The segment \<^verbatim>\<open>1\n2\<close> is not matched by \<^verbatim>\<open>/^(\d*)(.*)$/\<close>,
  \<^verbatim>\<open>parseSegment\<close> reads \<^verbatim>\<open>m[1]\<close> of the \<^verbatim>\<open>null\<close> match, and the comparison
  throws a TypeError.
\<close>

theorem compareVersions_line_terminator:
  "compareVersions (''1'' @ [CHR 0x0A] @ ''2'') ''1'' = Inl TypeError"
  by (simp add: version_eval js_eval)

section \<open>The compatibility-string parser\<close>

lemma dotGroups_chars: "c \<in> set (fst (dotGroups s)) \<Longrightarrow> isAlnum c \<or> c = CHR ''.''"
proof (induction s arbitrary: c rule: dotGroups.induct)
  case (1 s)
  show ?case
  proof (cases s)
    case Nil
    with 1 show ?thesis by (simp add: dotGroups.simps)
  next
    case (Cons d t)
    show ?thesis
    proof (cases "d = CHR ''.'' \<and> takeWhile isAlnum t \<noteq> []")
      case True
      then have "fst (dotGroups s)
          = d # takeWhile isAlnum t @ fst (dotGroups (dropWhile isAlnum t))"
        using Cons by (subst dotGroups.simps) (simp split: prod.splits)
      moreover have "\<And>x. x \<in> set (fst (dotGroups (dropWhile isAlnum t)))
          \<Longrightarrow> isAlnum x \<or> x = CHR ''.''"
        using "1.IH" Cons True by simp
      moreover have "\<And>x. x \<in> set (takeWhile isAlnum t) \<Longrightarrow> isAlnum x"
        by (rule set_takeWhileD [THEN conjunct2])
      ultimately show ?thesis using "1.prems" True by auto
    next
      case False
      then have "fst (dotGroups s) = []"
        using Cons by (subst dotGroups.simps) auto
      with "1.prems" show ?thesis by simp
    qed
  qed
qed

lemma matchToken_chars:
  assumes "matchToken s = Some (tok, r)" and "c \<in> set tok"
  shows "isAlnum c \<or> c = CHR ''.''"
proof -
  from assms(1) have "tok = takeWhile isAlnum s @ fst (dotGroups (dropWhile isAlnum s))"
    by (auto simp: matchToken_def split: prod.splits if_splits)
  with assms(2) show ?thesis
    using dotGroups_chars [of c "dropWhile isAlnum s"] set_takeWhileD [of c isAlnum s] by auto
qed

lemma scanTokens_chars:
  "tok \<in> set (scanTokens s) \<Longrightarrow> c \<in> set tok \<Longrightarrow> isAlnum c \<or> c = CHR ''.''"
proof (induction s rule: scanTokens.induct)
  case (1 s)
  show ?case
  proof (cases s)
    case Nil
    with "1.prems" show ?thesis by (simp add: scanTokens.simps)
  next
    case (Cons d t)
    show ?thesis
    proof (cases "matchToken s")
      case None
      then have "scanTokens s = scanTokens t"
        using Cons by (subst scanTokens.simps) simp
      with "1.IH"(1) [OF Cons None] "1.prems" show ?thesis by simp
    next
      case (Some m)
      obtain tok' r where m: "m = (tok', r)" by (cases m)
      have "scanTokens s = tok' # scanTokens r"
        using Cons Some m by (subst scanTokens.simps) simp
      with "1.prems" have "tok = tok' \<or> tok \<in> set (scanTokens r)" by simp
      then show ?thesis
      proof
        assume "tok = tok'"
        with Some m "1.prems" show ?thesis using matchToken_chars by blast
      next
        assume "tok \<in> set (scanTokens r)"
        with "1.IH"(2) [OF Cons Some m [symmetric]] "1.prems" show ?thesis by simp
      qed
    qed
  qed
qed

lemma token_chars:
  "tok \<in> set (extractVersionTokens s) \<Longrightarrow> c \<in> set tok \<Longrightarrow> isAlnum c \<or> c = CHR ''.''"
  using scanTokens_chars [of tok s c]
  by (auto simp: extractVersionTokens_def split: if_splits)

lemma token_dotted: "tok \<in> set (extractVersionTokens s) \<Longrightarrow> includesStr tok ''.''"
  by (auto simp: extractVersionTokens_def split: if_splits)

lemma alnum_dot_line_free: "isAlnum c \<or> c = CHR ''.'' \<Longrightarrow> \<not> isLineTerminator c"
  by (auto simp: isAlnum_def isDigit_def isLineTerminator_def charCode_def)

lemma token_parses: "tok \<in> set (extractVersionTokens s) \<Longrightarrow> parses tok"
  using token_chars alnum_dot_line_free by (intro parses_line_free) blast

lemmas parser_eval =
  parseCompatibilityString_def extractVersionTokens_def scanTokens.simps matchToken_def
  dotGroups.simps

lemma parse_example_range:
  "parseCompatibilityString (Some ''Confluence Data Center 8.0 - 9.0'')
   = Inr \<lparr>minVersion = Some ''8.0'', maxVersion = Some ''9.0'',
          rawText = ''Confluence Data Center 8.0 - 9.0''\<rparr>"
  by (simp add: parser_eval version_eval js_eval)

lemma parse_example_swapped:
  "parseCompatibilityString (Some ''9.0 - 8.0'')
   = Inr \<lparr>minVersion = Some ''8.0'', maxVersion = Some ''9.0'', rawText = ''9.0 - 8.0''\<rparr>"
  by (simp add: parser_eval version_eval js_eval)

lemma parse_example_none:
  "parseCompatibilityString (Some ''no version info'')
   = Inr \<lparr>minVersion = None, maxVersion = None, rawText = ''no version info''\<rparr>"
  by (simp add: parser_eval version_eval js_eval)

lemma parseCompatibilityString_general:
  "\<exists>r. parseCompatibilityString text = Inr r \<and> rawText r = trim (orEmpty text) \<and>
     (let tokens = extractVersionTokens (trim (orEmpty text)) in
        (\<forall>t \<in> set tokens. includesStr t ''.'' \<and> list_all (\<lambda>c. isAlnum c \<or> c = CHR ''.'') t) \<and>
        (length tokens = 0 \<longrightarrow> minVersion r = None \<and> maxVersion r = None) \<and>
        (length tokens = 1 \<longrightarrow>
           minVersion r = Some (tokens ! 0) \<and> maxVersion r = Some (tokens ! 0)) \<and>
        (2 \<le> length tokens \<longrightarrow>
           (\<exists>c. compareVersions (tokens ! 0) (last tokens) = Inr c \<and>
                minVersion r = Some (if 0 < c then last tokens else tokens ! 0) \<and>
                maxVersion r = Some (if 0 < c then tokens ! 0 else last tokens))) \<and>
        (\<forall>mn mx. minVersion r = Some mn \<and> maxVersion r = Some mx \<longrightarrow>
           (\<exists>c. compareVersions mn mx = Inr c \<and> c \<le> 0)))"
proof -
  define raw where "raw = trim (orEmpty text)"
  define tokens where "tokens = extractVersionTokens raw"
  have chars: "\<forall>t \<in> set tokens. includesStr t ''.'' \<and> list_all (\<lambda>c. isAlnum c \<or> c = CHR ''.'') t"
    using token_chars token_dotted unfolding tokens_def by (auto simp: list_all_iff)
  have p: "\<And>t. t \<in> set tokens \<Longrightarrow> parses t"
    unfolding tokens_def by (rule token_parses)
  have empty: "raw = [] \<Longrightarrow> tokens = []"
    by (simp add: tokens_def extractVersionTokens_def)
  consider (none) "length tokens = 0" | (one) "length tokens = 1" | (more) "2 \<le> length tokens"
    by linarith
  then show ?thesis
  proof cases
    case none
    then have "parseCompatibilityString text
        = Inr \<lparr>minVersion = None, maxVersion = None, rawText = raw\<rparr>"
      by (simp add: parseCompatibilityString_def raw_def [symmetric] tokens_def [symmetric] Let_def)
    then show ?thesis
      using none chars by (simp add: raw_def [symmetric] tokens_def [symmetric] Let_def)
  next
    case one
    then have ne: "raw \<noteq> []" and tne: "tokens \<noteq> []" using empty by auto
    have mem: "tokens ! 0 \<in> set tokens" using one by simp
    have "parseCompatibilityString text
        = Inr \<lparr>minVersion = Some (tokens ! 0), maxVersion = Some (tokens ! 0), rawText = raw\<rparr>"
      using one ne tne
      by (simp add: parseCompatibilityString_def raw_def [symmetric] tokens_def [symmetric] Let_def)
    moreover have "compareVersions (tokens ! 0) (tokens ! 0) = Inr 0"
      using p [OF mem] by (rule compareVersions_refl)
    ultimately show ?thesis
      using one tne chars by (simp add: raw_def [symmetric] tokens_def [symmetric] Let_def)
  next
    case more
    then have ne: "raw \<noteq> []" and tne: "tokens \<noteq> []" using empty by auto
    have lastn: "tokens ! (length tokens - 1) = last tokens"
      using tne by (simp add: last_conv_nth)
    have "tokens ! 0 \<in> set tokens" "last tokens \<in> set tokens" using tne more by simp_all
    then have "parses (tokens ! 0)" "parses (last tokens)" using p by blast+
    then obtain c where c: "compareVersions (tokens ! 0) (last tokens) = Inr c"
      using compareVersions_Inr_iff by blast
    then have swapped: "compareVersions (last tokens) (tokens ! 0) = Inr (- c)"
      by (rule compareVersions_antisym)
    let ?r = "\<lparr>minVersion = Some (if 0 < c then last tokens else tokens ! 0),
               maxVersion = Some (if 0 < c then tokens ! 0 else last tokens), rawText = raw\<rparr>"
    have c': "compareVersions (tokens ! 0) (tokens ! (length tokens - 1)) = Inr c"
      using c by (simp only: lastn)
    have "parseCompatibilityString text
        = Inr \<lparr>minVersion = Some (if 0 < c then tokens ! (length tokens - 1) else tokens ! 0),
               maxVersion = Some (if 0 < c then tokens ! 0 else tokens ! (length tokens - 1)),
               rawText = raw\<rparr>"
      using more ne tne c'
      by (simp add: parseCompatibilityString_def raw_def [symmetric] tokens_def [symmetric]
          Let_def)
    then have "parseCompatibilityString text = Inr ?r"
      by (simp only: lastn)
    moreover have "\<exists>d. compareVersions (if 0 < c then last tokens else tokens ! 0)
        (if 0 < c then tokens ! 0 else last tokens) = Inr d \<and> d \<le> 0"
      using c swapped by auto
    ultimately show ?thesis
      using more tne chars c by (simp add: raw_def [symmetric] tokens_def [symmetric] Let_def)
  qed
qed

text \<open>
  Claim C6. For every text \<^verbatim>\<open>parseCompatibilityString\<close> returns (it never throws, as
  the tokens hold letters, digits and dots only); its tokens are dotted; without a token
  both bounds are \<^verbatim>\<open>null\<close>, with one token both bounds are that token, with two or
  more they are the first and the last token, swapped when the first compares greater;
  the pair returned is ordered under \<^verbatim>\<open>compareVersions\<close>; and the three texts of the
  specification give the results stated there.
\<close>

theorem parseCompatibilityString_correct:
  "(\<forall>text. \<exists>r. parseCompatibilityString text = Inr r \<and> rawText r = trim (orEmpty text) \<and>
     (let tokens = extractVersionTokens (trim (orEmpty text)) in
        (\<forall>t \<in> set tokens. includesStr t ''.'' \<and> list_all (\<lambda>c. isAlnum c \<or> c = CHR ''.'') t) \<and>
        (length tokens = 0 \<longrightarrow> minVersion r = None \<and> maxVersion r = None) \<and>
        (length tokens = 1 \<longrightarrow>
           minVersion r = Some (tokens ! 0) \<and> maxVersion r = Some (tokens ! 0)) \<and>
        (2 \<le> length tokens \<longrightarrow>
           (\<exists>c. compareVersions (tokens ! 0) (last tokens) = Inr c \<and>
                minVersion r = Some (if 0 < c then last tokens else tokens ! 0) \<and>
                maxVersion r = Some (if 0 < c then tokens ! 0 else last tokens))) \<and>
        (\<forall>mn mx. minVersion r = Some mn \<and> maxVersion r = Some mx \<longrightarrow>
           (\<exists>c. compareVersions mn mx = Inr c \<and> c \<le> 0))))
   \<and> parseCompatibilityString (Some ''Confluence Data Center 8.0 - 9.0'')
       = Inr \<lparr>minVersion = Some ''8.0'', maxVersion = Some ''9.0'',
              rawText = ''Confluence Data Center 8.0 - 9.0''\<rparr>
   \<and> parseCompatibilityString (Some ''9.0 - 8.0'')
       = Inr \<lparr>minVersion = Some ''8.0'', maxVersion = Some ''9.0'', rawText = ''9.0 - 8.0''\<rparr>
   \<and> parseCompatibilityString (Some ''no version info'')
       = Inr \<lparr>minVersion = None, maxVersion = None, rawText = ''no version info''\<rparr>"
  using parseCompatibilityString_general parse_example_range parse_example_swapped
    parse_example_none
  by blast

theorem parseCompatibilityString_correct_witness:
  "\<exists>r mn mx c. parseCompatibilityString (Some ''9.0 - 8.0'') = Inr r
     \<and> minVersion r = Some mn \<and> maxVersion r = Some mx
     \<and> mn = ''8.0'' \<and> mx = ''9.0'' \<and> compareVersions mn mx = Inr c \<and> c \<le> 0"
proof -
  from parseCompatibilityString_correct
  obtain r where r: "parseCompatibilityString (Some ''9.0 - 8.0'') = Inr r"
    and ord: "\<forall>mn mx. minVersion r = Some mn \<and> maxVersion r = Some mx \<longrightarrow>
           (\<exists>c. compareVersions mn mx = Inr c \<and> c \<le> 0)"
    unfolding Let_def by blast
  from parseCompatibilityString_correct
  have "parseCompatibilityString (Some ''9.0 - 8.0'')
       = Inr \<lparr>minVersion = Some ''8.0'', maxVersion = Some ''9.0'', rawText = ''9.0 - 8.0''\<rparr>"
    by blast
  with r have "minVersion r = Some ''8.0''" "maxVersion r = Some ''9.0''" by auto
  with r ord show ?thesis by blast
qed

section \<open>URL helpers\<close>

lemmas url_eval =
  normalizeVersionHistoryUrl_def stripTrailingSlash_def extractAddonIdentifiers_def at_def

text \<open>
  Where the URL has no query string and no \<^verbatim>\<open>/version-history\<close> yet, and where it
  has \<^verbatim>\<open>/version-history\<close>, the result is the canonical one.
\<close>

lemma normalize_appends:
  "\<not> includesStr (trim u) ''/version-history'' \<Longrightarrow>
   normalizeVersionHistoryUrl u
   = stripTrailingSlash (trim u) @ ''/version-history?versionHistoryHosting=dataCenter''"
  by (simp add: normalizeVersionHistoryUrl_def)

lemma hd_split: "hd (split sep s) = takeWhile (\<lambda>c. c \<noteq> sep) s"
  by (induction s) (auto simp: Let_def)

lemma normalize_strips_query:
  "includesStr (trim u) ''/version-history'' \<Longrightarrow>
   normalizeVersionHistoryUrl u
   = takeWhile (\<lambda>c. c \<noteq> CHR ''?'') (trim u) @ ''?versionHistoryHosting=dataCenter''"
  by (simp add: normalizeVersionHistoryUrl_def hd_split)

text \<open>
  Claim C9. The claim fails on a URL that has a query string and no
  \<^verbatim>\<open>/version-history\<close> segment: that branch removes a trailing slash and appends the
  segment, and leaves the query string where it is, so the segment and the parameter
  land behind it. The other branch does strip the query string.
\<close>

theorem normalize_keeps_query:
  "normalizeVersionHistoryUrl
     ''https://marketplace.atlassian.com/apps/1215215/scriptrunner?hosting=datacenter''
   = ''https://marketplace.atlassian.com/apps/1215215/scriptrunner?hosting=datacenter/version-history?versionHistoryHosting=dataCenter''"
  by (simp add: url_eval js_eval)

lemma indexOf_range: "- 1 \<le> indexOf xs x"
  by (induction xs) (auto simp: Let_def)

lemma extract_example:
  "extractAddonIdentifiers (\<lambda>u. Some ''/apps/1215215/scriptrunner'')
     ''https://marketplace.example.com/apps/1215215/scriptrunner''
   = \<lparr>addonId = Some ''1215215'', slug = Some ''scriptrunner''\<rparr>"
  by (simp add: url_eval js_eval)

lemma extract_no_apps:
  "extractAddonIdentifiers (\<lambda>u. Some ''/vendors/1215215/scriptrunner'')
     ''https://marketplace.example.com/vendors/1215215/scriptrunner''
   = \<lparr>addonId = None, slug = None\<rparr>"
  by (simp add: url_eval js_eval)

lemma extract_non_numeric:
  "extractAddonIdentifiers (\<lambda>u. Some ''/apps/scriptrunner/groovy'')
     ''https://marketplace.example.com/apps/scriptrunner/groovy''
   = \<lparr>addonId = None, slug = None\<rparr>"
  by (simp add: url_eval js_eval)

lemma extract_general:
  "(\<forall>i. addonId (extractAddonIdentifiers pathname url) = Some i \<longrightarrow> i \<noteq> [] \<and> list_all isDigit i)
   \<and> (addonId (extractAddonIdentifiers pathname url) = None
        \<longrightarrow> slug (extractAddonIdentifiers pathname url) = None)"
  by (auto simp: extractAddonIdentifiers_def Let_def split: option.splits)

text \<open>
  Claim C10. Whatever the URL parser gives for the path, an id that
  \<^verbatim>\<open>extractAddonIdentifiers\<close> returns is a non-empty string of decimal digits, and
  without an id there is no slug; so for the path \<^verbatim>\<open>/apps/scriptrunner/groovy\<close>, whose
  segment behind \<^verbatim>\<open>apps\<close> is no number, both are \<^verbatim>\<open>null\<close>.
\<close>

theorem extractAddonIdentifiers_id_digits:
  "(\<forall>pathname url.
      (\<forall>i. addonId (extractAddonIdentifiers pathname url) = Some i
            \<longrightarrow> i \<noteq> [] \<and> list_all isDigit i)
      \<and> (addonId (extractAddonIdentifiers pathname url) = None
           \<longrightarrow> slug (extractAddonIdentifiers pathname url) = None))
   \<and> extractAddonIdentifiers (\<lambda>u. Some ''/apps/scriptrunner/groovy'')
        ''https://marketplace.example.com/apps/scriptrunner/groovy''
      = \<lparr>addonId = None, slug = None\<rparr>"
  using extract_general extract_non_numeric by blast

theorem extractAddonIdentifiers_id_digits_witness:
  "addonId (extractAddonIdentifiers (\<lambda>u. Some ''/apps/1215215/scriptrunner'')
      ''https://marketplace.example.com/apps/1215215/scriptrunner'') = Some ''1215215''
   \<and> list_all isDigit ''1215215''
   \<and> addonId (extractAddonIdentifiers (\<lambda>u. None) ''not a url'') = None
   \<and> slug (extractAddonIdentifiers (\<lambda>u. None) ''not a url'') = None"
proof -
  have a: "addonId (extractAddonIdentifiers (\<lambda>u. Some ''/apps/1215215/scriptrunner'')
      ''https://marketplace.example.com/apps/1215215/scriptrunner'') = Some ''1215215''"
    by (simp add: extract_example)
  have b: "addonId (extractAddonIdentifiers (\<lambda>u. None) ''not a url'') = None"
    by (simp add: extractAddonIdentifiers_def)
  show ?thesis using extractAddonIdentifiers_id_digits a b by blast
qed

section \<open>The orchestrator\<close>

lemma fetchAllVersions_firstSuccess:
  "fetchAllVersions E p w = firstSuccess E p (planned E p) [] [] w"
  by (simp add: fetchAllVersions_def planned_def Let_def split: prod.splits sum.splits)

text \<open>A method that returns, returns at least one record.\<close>

lemma runTier_nonempty: "runTier E p t w = (Inr vs, w') \<Longrightarrow> vs \<noteq> []"
proof (cases t)
  case InitialState
  assume "runTier E p t w = (Inr vs, w')"
  with InitialState show ?thesis
    by (auto simp: fetchFromInitialState_def split: prod.splits sum.splits if_splits)
next
  case RestApi
  assume "runTier E p t w = (Inr vs, w')"
  with RestApi show ?thesis
    by (auto simp: fetchFromAPI_def split: prod.splits sum.splits if_splits)
next
  case Puppeteer
  assume "runTier E p t w = (Inr vs, w')"
  with Puppeteer show ?thesis
    by (auto simp: fetchFromPuppeteer_def split: prod.splits sum.splits if_splits
        dest: mapE_length)
qed

lemma attempts_snoc: "attempts (evs @ [Attempt t u]) = attempts evs @ [t]"
  by (simp add: attempts_def)

text \<open>
  What \<open>firstSuccess\<close> guarantees, by induction on the methods still to try: the calls
  made are a prefix of the plan; a success is the last call made; a failure has called
  the whole plan and holds one tagged reason for each method, in order.
\<close>

lemma firstSuccess_trace:
  "firstSuccess E p ts errors evs w = (res, w', evs') \<Longrightarrow>
   \<exists>k. k \<le> length ts \<and> attempts evs' = attempts evs @ take k ts
       \<and> (ts \<noteq> [] \<longrightarrow> 1 \<le> k)"
proof (induction ts arbitrary: errors evs w)
  case Nil
  then show ?case by auto
next
  case (Cons t ts)
  obtain r w1 where rt: "runTier E p t w = (r, w1)" by (cases "runTier E p t w")
  show ?case
  proof (cases r)
    case (Inr vs)
    with Cons.prems rt have "attempts evs' = attempts evs @ take 1 (t # ts)"
      by (auto simp: attempts_snoc)
    then show ?thesis by (intro exI [of _ 1]) simp
  next
    case (Inl e)
    with Cons.prems rt
    have "firstSuccess E p ts (errors @ [tagged t e]) (evs @ [Attempt t (tierTarget E p t)]) w1
        = (res, w', evs')"
      by simp
    from Cons.IH [OF this] obtain k where "k \<le> length ts"
      "attempts evs' = attempts (evs @ [Attempt t (tierTarget E p t)]) @ take k ts"
      by blast
    then have "attempts evs' = attempts evs @ take (Suc k) (t # ts)"
      by (simp add: attempts_snoc)
    with \<open>k \<le> length ts\<close> show ?thesis by (intro exI [of _ "Suc k"]) simp
  qed
qed

lemma firstSuccess_success:
  "firstSuccess E p ts errors evs w = (Inr f, w', evs') \<Longrightarrow>
   versions f \<noteq> [] \<and> attempts evs' \<noteq> [] \<and> method' f = tierName (last (attempts evs'))
   \<and> (\<exists>w0. runTier E p (last (attempts evs')) w0 = (Inr (versions f), w'))"
proof (induction ts arbitrary: errors evs w)
  case Nil
  then show ?case by simp
next
  case (Cons t ts)
  obtain r w1 where rt: "runTier E p t w = (r, w1)" by (cases "runTier E p t w")
  show ?case
  proof (cases r)
    case (Inr vs)
    with Cons.prems rt
    have "(Inr \<lparr>versions = vs, method' = tierName t\<rparr>, w1, evs @ [Attempt t (tierTarget E p t)])
        = (Inr f, w', evs')"
      by simp
    then have f: "f = \<lparr>versions = vs, method' = tierName t\<rparr>" "w' = w1"
      and ev: "evs' = evs @ [Attempt t (tierTarget E p t)]"
      by simp_all
    have "vs \<noteq> []" using runTier_nonempty [of E p t w vs w1] rt Inr by simp
    moreover have "attempts evs' = attempts evs @ [t]"
      unfolding ev by (rule attempts_snoc)
    moreover have "runTier E p t w = (Inr (versions f), w')"
      using rt Inr f by simp
    ultimately show ?thesis using f by (intro conjI exI [of _ w]) simp_all
  next
    case (Inl e)
    with Cons.prems rt
    have "firstSuccess E p ts (errors @ [tagged t e]) (evs @ [Attempt t (tierTarget E p t)]) w1
        = (Inr f, w', evs')"
      by simp
    then show ?thesis by (rule Cons.IH)
  qed
qed

lemma firstSuccess_failure:
  "firstSuccess E p ts errors evs w = (Inl errors', w', evs') \<Longrightarrow>
   attempts evs' = attempts evs @ ts
   \<and> (\<exists>es. length es = length ts \<and> errors' = errors @ map (\<lambda>(t, e). tagged t e) (zip ts es))"
proof (induction ts arbitrary: errors evs w)
  case Nil
  then show ?case by simp
next
  case (Cons t ts)
  obtain r w1 where rt: "runTier E p t w = (r, w1)" by (cases "runTier E p t w")
  show ?case
  proof (cases r)
    case (Inr vs)
    with Cons.prems rt show ?thesis by simp
  next
    case (Inl e)
    with Cons.prems rt
    have "firstSuccess E p ts (errors @ [tagged t e]) (evs @ [Attempt t (tierTarget E p t)]) w1
        = (Inl errors', w', evs')"
      by simp
    from Cons.IH [OF this] obtain es where es: "length es = length ts"
      "errors' = (errors @ [tagged t e]) @ map (\<lambda>(t, e). tagged t e) (zip ts es)"
      and at: "attempts evs' = attempts (evs @ [Attempt t (tierTarget E p t)]) @ ts"
      by blast
    have "length (e # es) = length (t # ts)
        \<and> errors' = errors @ map (\<lambda>(t, e). tagged t e) (zip (t # ts) (e # es))"
      using es by simp
    then have "\<exists>es'. length es' = length (t # ts)
        \<and> errors' = errors @ map (\<lambda>(t, e). tagged t e) (zip (t # ts) es')"
      by (rule exI [of _ "e # es"])
    moreover have "attempts evs' = attempts evs @ t # ts"
      using at by (simp add: attempts_snoc)
    ultimately show ?thesis by blast
  qed
qed

lemma firstSuccess_first:
  "runTier E p t w = (Inr vs, w1) \<Longrightarrow>
   firstSuccess E p (t # ts) errors evs w
   = (Inr \<lparr>versions = vs, method' = tierName t\<rparr>, w1, evs @ [Attempt t (tierTarget E p t)])"
  by simp

lemma planned_cases:
  "planned E p = [InitialState, RestApi, Puppeteer] \<or> planned E p = [InitialState, Puppeteer]"
  by (simp add: planned_def Let_def)

lemma planned_hd: "planned E p = InitialState # tl (planned E p)"
  using planned_cases [of E p] by auto

text \<open>
  Claim C3. \<^verbatim>\<open>fetchAllVersions\<close> is the fallback chain of the specification over the
  plan initial-state, REST API (only when an id or a slug was resolved), browser. So the
  methods called are a non-empty prefix of the plan, in its order; a method that returns
  has at least one record, wins and is the last one called; when the initial-state
  method returns, it is the only one called; without id and slug the REST method is not
  called; and when the orchestrator fails, every method of the plan was called and the
  error lists one tagged reason for each, in order.
\<close>

theorem fetchAllVersions_fallback:
  assumes "fetchAllVersions E p w = (res, w', evs)"
  shows "firstSuccess E p (planned E p) [] [] w = (res, w', evs)
   \<and> (\<exists>k. 1 \<le> k \<and> attempts evs = take k (planned E p))
   \<and> (\<not> truthy (addonId (extractAddonIdentifiers (urlPathname E) (marketplaceUrl p)))
        \<and> \<not> truthy (slug (extractAddonIdentifiers (urlPathname E) (marketplaceUrl p)))
        \<longrightarrow> RestApi \<notin> set (attempts evs))
   \<and> (\<forall>f. res = Inr f \<longrightarrow>
         versions f \<noteq> [] \<and> method' f = tierName (last (attempts evs))
         \<and> (\<exists>w0. runTier E p (last (attempts evs)) w0 = (Inr (versions f), w')))
   \<and> (\<forall>vs w1. runTier E p InitialState w = (Inr vs, w1) \<longrightarrow>
         res = Inr \<lparr>versions = vs, method' = ''initial-state''\<rparr>
         \<and> attempts evs = [InitialState])
   \<and> (\<forall>errors. res = Inl errors \<longrightarrow>
         attempts evs = planned E p
         \<and> (\<exists>es. length es = length (planned E p)
               \<and> errors = map (\<lambda>(t, e). tagged t e) (zip (planned E p) es)))"
proof (intro conjI allI impI)
  show fs: "firstSuccess E p (planned E p) [] [] w = (res, w', evs)"
    using assms by (simp only: fetchAllVersions_firstSuccess)
  have ne: "planned E p \<noteq> []" using planned_cases [of E p] by auto
  from firstSuccess_trace [OF fs] ne
  show "\<exists>k. 1 \<le> k \<and> attempts evs = take k (planned E p)"
    by (auto simp: attempts_def)
next
  assume nokey: "\<not> truthy (addonId (extractAddonIdentifiers (urlPathname E) (marketplaceUrl p)))
             \<and> \<not> truthy (slug (extractAddonIdentifiers (urlPathname E) (marketplaceUrl p)))"
  have fs: "firstSuccess E p (planned E p) [] [] w = (res, w', evs)"
    using assms by (simp only: fetchAllVersions_firstSuccess)
  have pl: "planned E p = [InitialState, Puppeteer]"
    using nokey by (simp add: planned_def Let_def)
  from firstSuccess_trace [OF fs] obtain k where "attempts evs = take k (planned E p)"
    by (auto simp: attempts_def)
  then have "set (attempts evs) \<subseteq> set (planned E p)" by (simp add: set_take_subset)
  then show "RestApi \<notin> set (attempts evs)" using pl by auto
next
  fix f
  assume res: "res = Inr f"
  have fs: "firstSuccess E p (planned E p) [] [] w = (Inr f, w', evs)"
    using assms res by (simp only: fetchAllVersions_firstSuccess)
  from firstSuccess_success [OF fs]
  show "versions f \<noteq> []" and "method' f = tierName (last (attempts evs))"
    and "\<exists>w0. runTier E p (last (attempts evs)) w0 = (Inr (versions f), w')"
    by simp_all
next
  fix vs w1
  assume first: "runTier E p InitialState w = (Inr vs, w1)"
  have "firstSuccess E p (planned E p) [] [] w
      = firstSuccess E p (InitialState # tl (planned E p)) [] [] w"
    by (subst planned_hd) (rule refl)
  also have "\<dots> = (Inr \<lparr>versions = vs, method' = tierName InitialState\<rparr>, w1,
      [] @ [Attempt InitialState (tierTarget E p InitialState)])"
    by (rule firstSuccess_first [OF first])
  finally have "(res, w', evs) = (Inr \<lparr>versions = vs, method' = tierName InitialState\<rparr>, w1,
      [] @ [Attempt InitialState (tierTarget E p InitialState)])"
    using assms by (simp only: fetchAllVersions_firstSuccess)
  then show "res = Inr \<lparr>versions = vs, method' = ''initial-state''\<rparr>"
    and "attempts evs = [InitialState]"
    by (simp_all add: attempts_def)
next
  fix errors
  assume res: "res = Inl errors"
  have fs: "firstSuccess E p (planned E p) [] [] w = (Inl errors, w', evs)"
    using assms res by (simp only: fetchAllVersions_firstSuccess)
  from firstSuccess_failure [OF fs]
  show "attempts evs = planned E p"
    and "\<exists>es. length es = length (planned E p)
           \<and> errors = map (\<lambda>(t, e). tagged t e) (zip (planned E p) es)"
    by (auto simp: attempts_def)
qed

lemmas example_defs =
  record10_def record20_def record30_def scriptrunner_def otherPlugin_def restEnv_def
  pageEnv_def

lemmas orchestrator_eval =
  fetchAllVersions_def fetchFromInitialState_def fetchFromAPI_def fetchFromPuppeteer_def
  resourceKey_def rowToVersion_def tagged_def

lemma fetch_restEnv:
  "fetchAllVersions restEnv scriptrunner ()
   = (Inr \<lparr>versions = [record20], method' = ''rest-api''\<rparr>, (),
      [Attempt InitialState
         ''https://m.example/apps/12/scriptrunner/version-history?versionHistoryHosting=dataCenter'',
       Attempt RestApi ''12''])"
  by (simp add: orchestrator_eval url_eval js_eval example_defs)

theorem fetchAllVersions_fallback_witness:
  "\<exists>f w' evs. fetchAllVersions restEnv scriptrunner () = (Inr f, w', evs)
     \<and> attempts evs = [InitialState, RestApi] \<and> method' f = ''rest-api'' \<and> versions f \<noteq> []"
proof -
  let ?f = "\<lparr>versions = [record20], method' = ''rest-api''\<rparr>"
  let ?evs = "[Attempt InitialState
         ''https://m.example/apps/12/scriptrunner/version-history?versionHistoryHosting=dataCenter'',
       Attempt RestApi ''12'']"
  have run: "fetchAllVersions restEnv scriptrunner () = (Inr ?f, (), ?evs)"
    by (rule fetch_restEnv)
  have at: "attempts ?evs = [InitialState, RestApi]"
    by (simp add: attempts_def)
  note all = fetchAllVersions_fallback [OF run]
  note success = all [THEN conjunct2, THEN conjunct2, THEN conjunct2, THEN conjunct1,
      THEN spec, of ?f, THEN mp, OF refl]
  from success have "versions ?f \<noteq> []" and "method' ?f = tierName (last (attempts ?evs))"
    by simp_all
  with run at show ?thesis by simp
qed

section \<open>The result builder\<close>

lemma resolveBounds_bounds: "resolveBounds v = Inr (bounds v)"
proof -
  obtain r where "parseCompatibilityString (compatibility v) = Inr r"
    using parseCompatibilityString_general [of "compatibility v"] by auto
  then have "\<exists>b. resolveBounds v = Inr b" by (simp add: resolveBounds_def)
  then show ?thesis by (auto simp: bounds_def)
qed


lemma isVersionInRange_returns:
  assumes "parses target" and "parses (orEmpty mn)" and "parses (orEmpty mx)"
  shows "\<exists>b. isVersionInRange (Some target) mn mx = Inr b"
proof -
  obtain c d where "compareVersions target (orEmpty mn) = Inr c"
    "compareVersions target (orEmpty mx) = Inr d"
    using assms compareVersions_Inr_iff by blast
  then show ?thesis by (auto simp: isVersionInRange_def)
qed

lemma isVersionInRange_Inl: "isVersionInRange t mn mx = Inl e \<Longrightarrow> e = TypeError"
  by (auto simp: isVersionInRange_def split: if_splits sum.splits dest: compareVersions_Inl)

text \<open>The loop keeps the records that \<open>keeps\<close> names, in their order.\<close>

lemma collectCompatible_kept:
  "collectCompatible target acc vs = Inr r \<Longrightarrow>
   r = acc @ map entryOf (filter (keeps target) vs)"
proof (induction vs arbitrary: acc)
  case Nil
  then show ?case by simp
next
  case (Cons v vs)
  obtain mn mx where b: "bounds v = (mn, mx)" by (cases "bounds v")
  have rb: "resolveBounds v = Inr (mn, mx)" using resolveBounds_bounds [of v] b by simp
  show ?case
  proof (cases "truthy mn \<and> truthy mx")
    case False
    then have "collectCompatible target acc vs = Inr r" using Cons.prems rb by auto
    moreover have "\<not> keeps target v" using False b by (auto simp: keeps_def)
    ultimately show ?thesis using Cons.IH by simp
  next
    case True
    show ?thesis
    proof (cases "isVersionInRange (Some target) mn mx")
      case (Inl e)
      with Cons.prems rb True show ?thesis by simp
    next
      case (Inr inRange)
      show ?thesis
      proof (cases inRange)
        case True
        have "collectCompatible target (acc @ [mkEntry v (orEmpty mn) (orEmpty mx)]) vs = Inr r"
          using Cons.prems rb \<open>truthy mn \<and> truthy mx\<close> Inr True by simp
        then have "r = (acc @ [mkEntry v (orEmpty mn) (orEmpty mx)])
            @ map entryOf (filter (keeps target) vs)"
          by (rule Cons.IH)
        moreover have "keeps target v"
          using \<open>truthy mn \<and> truthy mx\<close> Inr True b by (simp add: keeps_def)
        moreover have "entryOf v = mkEntry v (orEmpty mn) (orEmpty mx)"
          using b by (simp add: entryOf_def)
        ultimately show ?thesis by simp
      next
        case False
        have "collectCompatible target acc vs = Inr r"
          using Cons.prems rb \<open>truthy mn \<and> truthy mx\<close> Inr False by simp
        moreover have "\<not> keeps target v" using Inr False b by (simp add: keeps_def)
        ultimately show ?thesis using Cons.IH by simp
      qed
    qed
  qed
qed

lemma collectCompatible_returns:
  "(\<And>v. v \<in> set vs \<Longrightarrow>
      \<exists>b. isVersionInRange (Some target) (fst (bounds v)) (snd (bounds v)) = Inr b) \<Longrightarrow>
   \<exists>r. collectCompatible target acc vs = Inr r"
proof (induction vs arbitrary: acc)
  case Nil
  then show ?case by simp
next
  case (Cons v vs)
  obtain mn mx where b: "bounds v = (mn, mx)" by (cases "bounds v")
  have rb: "resolveBounds v = Inr (mn, mx)" using resolveBounds_bounds [of v] b by simp
  obtain inRange where ir: "isVersionInRange (Some target) mn mx = Inr inRange"
    using Cons.prems [of v] b by auto
  have rest: "\<And>acc'. \<exists>r. collectCompatible target acc' vs = Inr r"
    using Cons.IH Cons.prems by simp
  show ?case using rb ir rest by simp
qed


text \<open>\<^verbatim>\<open>some\<close>: what its result says, and when it returns.\<close>

lemma someE_True: "someE p xs = Inr True \<Longrightarrow> \<exists>x \<in> set xs. p x = Inr True"
  by (induction xs) (auto split: sum.splits if_splits)

lemma someE_False: "someE p xs = Inr False \<Longrightarrow> x \<in> set xs \<Longrightarrow> p x = Inr False"
  by (induction xs) (auto split: sum.splits if_splits)

lemma someE_first: "someE p (x # xs) = Inr b \<Longrightarrow> \<exists>c. p x = Inr c"
  by (auto split: sum.splits)

lemma someE_returns: "(\<And>x. x \<in> set xs \<Longrightarrow> \<exists>b. p x = Inr b) \<Longrightarrow> \<exists>b. someE p xs = Inr b"
proof (induction xs)
  case Nil
  then show ?case by auto
next
  case (Cons x xs)
  obtain b where "p x = Inr b" using Cons.prems [of x] by auto
  moreover obtain c where "someE p xs = Inr c" using Cons.IH Cons.prems by auto
  ultimately show ?case by auto
qed

text \<open>The sort: a permutation, sorted, and returning when all comparisons return.\<close>

lemma insertE_mset: "insertE cmp x ys = Inr zs \<Longrightarrow> mset zs = add_mset x (mset ys)"
  by (induction ys arbitrary: zs) (auto split: sum.splits if_splits)

lemma sortE_mset: "sortE cmp xs = Inr ys \<Longrightarrow> mset ys = mset xs"
  by (induction xs arbitrary: ys) (auto split: sum.splits dest: insertE_mset)

lemma notAfter_swap:
  "preorderE cmp \<Longrightarrow> cmp x y = Inr c \<Longrightarrow> 0 < c \<Longrightarrow> notAfter cmp y x"
  by (auto simp: preorderE_def notAfter_def)

lemma notAfter_trans:
  "preorderE cmp \<Longrightarrow> notAfter cmp a b \<Longrightarrow> notAfter cmp b c \<Longrightarrow> notAfter cmp a c"
  unfolding preorderE_def by blast

lemma insertE_sorted:
  assumes "preorderE cmp"
  shows "insertE cmp x ys = Inr zs \<Longrightarrow> sorted_wrt (notAfter cmp) ys \<Longrightarrow>
         sorted_wrt (notAfter cmp) zs"
proof (induction ys arbitrary: zs)
  case Nil
  then show ?case by auto
next
  case (Cons y ys)
  from Cons.prems(1) obtain c where c: "cmp x y = Inr c" by (auto split: sum.splits)
  show ?case
  proof (cases "c \<le> 0")
    case True
    then have zs: "zs = x # y # ys" using Cons.prems(1) c by simp
    have xy: "notAfter cmp x y" using c True by (simp add: notAfter_def)
    have "\<And>z. z \<in> set ys \<Longrightarrow> notAfter cmp x z"
      using Cons.prems(2) xy notAfter_trans [OF assms] by auto
    then show ?thesis using zs xy Cons.prems(2) by auto
  next
    case False
    then obtain zs' where zs': "insertE cmp x ys = Inr zs'" and zs: "zs = y # zs'"
      using Cons.prems(1) c by (auto split: sum.splits)
    have sorted: "sorted_wrt (notAfter cmp) zs'"
      using Cons.IH [OF zs'] Cons.prems(2) by simp
    have "set zs' = insert x (set ys)"
      using insertE_mset [OF zs'] by (metis set_mset_add_mset_insert set_mset_mset)
    moreover have "notAfter cmp y x" using notAfter_swap [OF assms c] False by simp
    ultimately show ?thesis using zs sorted Cons.prems(2) by auto
  qed
qed

lemma sortE_sorted:
  assumes "preorderE cmp"
  shows "sortE cmp xs = Inr ys \<Longrightarrow> sorted_wrt (notAfter cmp) ys"
proof (induction xs arbitrary: ys)
  case Nil
  then show ?case by simp
next
  case (Cons x xs)
  then obtain ys' where "sortE cmp xs = Inr ys'" "insertE cmp x ys' = Inr ys"
    by (auto split: sum.splits)
  then show ?case using Cons.IH insertE_sorted [OF assms] by blast
qed

lemma insertE_returns:
  "(\<And>y. y \<in> set ys \<Longrightarrow> \<exists>c. cmp x y = Inr c) \<Longrightarrow> \<exists>zs. insertE cmp x ys = Inr zs"
proof (induction ys)
  case Nil
  then show ?case by simp
next
  case (Cons y ys)
  obtain c where "cmp x y = Inr c" using Cons.prems [of y] by auto
  moreover obtain zs where "insertE cmp x ys = Inr zs" using Cons.IH Cons.prems by auto
  ultimately show ?case by simp
qed

lemma sortE_returns:
  "(\<And>a b. a \<in> set xs \<Longrightarrow> b \<in> set xs \<Longrightarrow> \<exists>c. cmp a b = Inr c) \<Longrightarrow>
   \<exists>ys. sortE cmp xs = Inr ys"
proof (induction xs)
  case Nil
  then show ?case by simp
next
  case (Cons x xs)
  obtain ys where ys: "sortE cmp xs = Inr ys" using Cons.IH Cons.prems by auto
  have "set ys = set xs" using sortE_mset [OF ys] by (metis set_mset_mset)
  then have "\<exists>zs. insertE cmp x ys = Inr zs"
    using Cons.prems by (intro insertE_returns) auto
  then show ?case using ys by auto
qed

lemma preorderE_ascending: "preorderE ascending"
  unfolding preorderE_def notAfter_def ascending_def
proof (intro conjI allI impI)
  fix a b :: compatibleEntry and c
  assume "compareVersions (pluginVersion a) (pluginVersion b) = Inr c"
  then show "compareVersions (pluginVersion b) (pluginVersion a) = Inr (- c)"
    by (rule compareVersions_antisym)
next
  fix a b c :: compatibleEntry
  assume h: "(case compareVersions (pluginVersion a) (pluginVersion b) of
                Inl e \<Rightarrow> False | Inr c \<Rightarrow> c \<le> 0)
           \<and> (case compareVersions (pluginVersion b) (pluginVersion c) of
                Inl e \<Rightarrow> False | Inr c \<Rightarrow> c \<le> 0)"
  then obtain d e where "compareVersions (pluginVersion a) (pluginVersion b) = Inr d" "d \<le> 0"
    "compareVersions (pluginVersion b) (pluginVersion c) = Inr e" "e \<le> 0"
    by (auto split: sum.splits)
  from compareVersions_trans [OF this(1) this(3) this(2) this(4)]
  show "case compareVersions (pluginVersion a) (pluginVersion c) of
          Inl e \<Rightarrow> False | Inr c \<Rightarrow> c \<le> 0"
    by auto
qed

lemma preorderE_descending: "preorderE descending"
  unfolding preorderE_def notAfter_def descending_def
proof (intro conjI allI impI)
  fix a b :: compatibleEntry and c
  assume "compareVersions (pluginVersion b) (pluginVersion a) = Inr c"
  then show "compareVersions (pluginVersion a) (pluginVersion b) = Inr (- c)"
    by (rule compareVersions_antisym)
next
  fix a b c :: compatibleEntry
  assume h: "(case compareVersions (pluginVersion b) (pluginVersion a) of
                Inl e \<Rightarrow> False | Inr c \<Rightarrow> c \<le> 0)
           \<and> (case compareVersions (pluginVersion c) (pluginVersion b) of
                Inl e \<Rightarrow> False | Inr c \<Rightarrow> c \<le> 0)"
  then obtain d e where "compareVersions (pluginVersion b) (pluginVersion a) = Inr d" "d \<le> 0"
    "compareVersions (pluginVersion c) (pluginVersion b) = Inr e" "e \<le> 0"
    by (auto split: sum.splits)
  from compareVersions_trans [OF this(3) this(1) this(4) this(2)]
  show "case compareVersions (pluginVersion c) (pluginVersion a) of
          Inl e \<Rightarrow> False | Inr c \<Rightarrow> c \<le> 0"
    by auto
qed

text \<open>What a returning call of \<^verbatim>\<open>buildResult\<close> has computed on its way.\<close>

lemma buildResult_steps:
  assumes "buildResult p raws target m = Inr r"
  obtains cvs b cvs' sorted' where
    "collectCompatible target [] raws = Inr cvs"
    and "someE (equalsCurrent (currentVersion p)) cvs = Inr b"
    and "if cvs = [] then cvs' = [] else sortE descending cvs = Inr cvs'"
    and "if cvs' = [] then sorted' = [] else sortE ascending cvs' = Inr sorted'"
    and "compatible r = Some b"
    and "compatibleVersions r = cvs'"
    and "recommendedVersion r = (if cvs = [] then None else Some (pluginVersion (cvs' ! 0)))"
    and "compatibleVersionRange r =
          (if cvs' = [] then None
           else Some (if pluginVersion (sorted' ! 0) = pluginVersion (sorted' ! (length sorted' - 1))
                      then pluginVersion (sorted' ! 0)
                      else pluginVersion (sorted' ! 0) @ '' - ''
                           @ pluginVersion (sorted' ! (length sorted' - 1))))"
    and "error r = None" and "fetchMethod r = m"
proof -
  from assms obtain cvs where s1: "collectCompatible target [] raws = Inr cvs"
    by (cases "collectCompatible target [] raws") (simp_all add: buildResult_def)
  from assms s1 obtain b where s2: "someE (equalsCurrent (currentVersion p)) cvs = Inr b"
    by (cases "someE (equalsCurrent (currentVersion p)) cvs") (simp_all add: buildResult_def)
  show ?thesis
  proof (cases "cvs = []")
    case True
    with assms s1 s2 have "compatible r = Some b \<and> compatibleVersions r = []
        \<and> recommendedVersion r = None \<and> compatibleVersionRange r = None
        \<and> error r = None \<and> fetchMethod r = m"
      by (auto simp: buildResult_def)
    with s1 s2 True show ?thesis
      by (intro that [of cvs b "[]" "[]"]) simp_all
  next
    case False
    with assms s1 s2 obtain cvs' where s3: "sortE descending cvs = Inr cvs'"
      by (cases "sortE descending cvs") (simp_all add: buildResult_def)
    show ?thesis
    proof (cases "cvs' = []")
      case True
      with assms s1 s2 s3 False have "compatible r = Some b \<and> compatibleVersions r = cvs'
          \<and> recommendedVersion r = Some (pluginVersion (cvs' ! 0))
          \<and> compatibleVersionRange r = None \<and> error r = None \<and> fetchMethod r = m"
        by (auto simp: buildResult_def)
      with s1 s2 s3 False True show ?thesis
        by (intro that [of cvs b cvs' "[]"]) simp_all
    next
      case ne: False
      with assms s1 s2 s3 False obtain sorted' where s4: "sortE ascending cvs' = Inr sorted'"
        by (cases "sortE ascending cvs'") (simp_all add: buildResult_def)
      with assms s1 s2 s3 False ne have "compatible r = Some b \<and> compatibleVersions r = cvs'
          \<and> recommendedVersion r = Some (pluginVersion (cvs' ! 0))
          \<and> compatibleVersionRange r =
               Some (if pluginVersion (sorted' ! 0) = pluginVersion (sorted' ! (length sorted' - 1))
                      then pluginVersion (sorted' ! 0)
                      else pluginVersion (sorted' ! 0) @ '' - ''
                           @ pluginVersion (sorted' ! (length sorted' - 1)))
          \<and> error r = None \<and> fetchMethod r = m"
        by (auto simp: buildResult_def Let_def)
      with s1 s2 s3 s4 False ne show ?thesis
        by (intro that [of cvs b cvs' sorted']) simp_all
    qed
  qed
qed

lemma sorted_wrt_first: "sorted_wrt R (y # ys) \<Longrightarrow> z \<in> set ys \<Longrightarrow> R y z"
  by simp

lemma sorted_wrt_last:
  "sorted_wrt R ys \<Longrightarrow> z \<in> set (butlast ys) \<Longrightarrow> R z (last ys)"
proof (induction ys)
  case Nil
  then show ?case by simp
next
  case (Cons y ys)
  show ?case
  proof (cases "ys = []")
    case True
    with Cons.prems show ?thesis by simp
  next
    case False
    then have "last ys \<in> set ys" by simp
    with Cons False show ?thesis by auto
  qed
qed

lemma notAfter_parses:
  "notAfter compareVersions u v \<Longrightarrow> parses u \<and> parses v"
  using compareVersions_Inr_iff [of u v] by (auto simp: notAfter_def split: sum.splits)

lemma notAfter_refl: "parses v \<Longrightarrow> notAfter compareVersions v v"
  by (simp add: notAfter_def compareVersions_refl)

lemma notAfter_ascending:
  "notAfter ascending a b = notAfter compareVersions (pluginVersion a) (pluginVersion b)"
  by (simp add: notAfter_def ascending_def)

lemma notAfter_descending:
  "notAfter descending a b = notAfter compareVersions (pluginVersion b) (pluginVersion a)"
  by (simp add: notAfter_def descending_def)

text \<open>
  In a sorted array of two or more elements every element has been compared with
  another one, so its version parses.
\<close>

lemma sorted_descending_parses:
  assumes "sorted_wrt (notAfter descending) ys" and "2 \<le> length ys" and "e \<in> set ys"
  shows "parses (pluginVersion e)"
proof -
  obtain y z zs where ys: "ys = y # z # zs"
    using assms(2) by (cases ys; cases "tl ys") auto
  have yz: "notAfter descending y z" using assms(1) ys by simp
  show ?thesis
  proof (cases "e = y")
    case True
    with yz show ?thesis using notAfter_parses by (auto simp: notAfter_descending)
  next
    case False
    then have "e \<in> set (z # zs)" using assms(3) ys by simp
    then have "notAfter descending y e" using assms(1) ys by auto
    then show ?thesis using notAfter_parses by (auto simp: notAfter_descending)
  qed
qed

lemma buildResult_parses:
  assumes "collectCompatible target [] raws = Inr cvs"
    and "someE (equalsCurrent current) cvs = Inr b"
    and "if cvs = [] then cvs' = [] else sortE descending cvs = Inr cvs'"
    and "e \<in> set cvs"
  shows "parses (pluginVersion e)"
proof (cases "2 \<le> length cvs")
  case True
  then have s: "sortE descending cvs = Inr cvs'" using assms(3) by (auto split: if_splits)
  have "mset cvs' = mset cvs" using s by (rule sortE_mset)
  then have "length cvs' = length cvs" "set cvs' = set cvs"
    by (metis size_mset, metis set_mset_mset)
  moreover have "sorted_wrt (notAfter descending) cvs'"
    using preorderE_descending s by (rule sortE_sorted)
  ultimately show ?thesis using True assms(4) sorted_descending_parses by auto
next
  case False
  then obtain x where x: "cvs = [x]" using assms(4) by (cases cvs; cases "tl cvs") auto
  then obtain c where "equalsCurrent current x = Inr c"
    using assms(2) by (cases "equalsCurrent current x") auto
  then obtain d where "compareVersions (pluginVersion x) current = Inr d"
    by (auto simp: equalsCurrent_def split: sum.splits)
  then have "parses (pluginVersion x)" using compareVersions_Inr_iff by blast
  then show ?thesis using assms(4) x by simp
qed

lemma buildResult_compatible:
  assumes "someE (equalsCurrent current) cvs = Inr b"
  shows "b = list_ex (\<lambda>v. compareVersions v current = Inr 0) (map pluginVersion cvs)"
proof (cases b)
  case True
  then have "someE (equalsCurrent current) cvs = Inr True" using assms by simp
  then obtain x where "x \<in> set cvs" "equalsCurrent current x = Inr True"
    by (auto dest: someE_True)
  then have "compareVersions (pluginVersion x) current = Inr 0"
    by (auto simp: equalsCurrent_def split: sum.splits)
  with \<open>x \<in> set cvs\<close> True show ?thesis by (auto simp: list_ex_iff)
next
  case False
  have "\<And>x. x \<in> set cvs \<Longrightarrow> compareVersions (pluginVersion x) current \<noteq> Inr 0"
  proof -
    fix x assume "x \<in> set cvs"
    moreover have "someE (equalsCurrent current) cvs = Inr False" using assms False by simp
    ultimately have "equalsCurrent current x = Inr False" by (auto dest: someE_False)
    then show "compareVersions (pluginVersion x) current \<noteq> Inr 0"
      by (auto simp: equalsCurrent_def split: sum.splits)
  qed
  with False show ?thesis by (auto simp: list_ex_iff)
qed

lemma pluginVersion_entryOf: "pluginVersion (entryOf v) = version v"
  by (simp add: entryOf_def mkEntry_def)

lemma kept_versions: "map pluginVersion (map entryOf (filter (keeps target) raws))
    = keptVersions target raws"
  by (simp add: keptVersions_def pluginVersion_entryOf)

text \<open>The head of a sorted array is minimal, its last element maximal.\<close>

lemma sorted_head_minimal:
  assumes "sorted_wrt (notAfter cmp) ys" and "ys \<noteq> []" and "e \<in> set ys"
    and "notAfter cmp (hd ys) (hd ys)"
  shows "notAfter cmp (hd ys) e"
proof -
  obtain y zs where ys: "ys = y # zs" using assms(2) by (cases ys) auto
  show ?thesis
  proof (cases "e \<in> set zs")
    case True
    with assms(1) ys show ?thesis by simp
  next
    case False
    with assms(3,4) ys show ?thesis by simp
  qed
qed

lemma sorted_last_maximal:
  assumes "sorted_wrt (notAfter cmp) ys" and "ys \<noteq> []" and "e \<in> set ys"
    and "notAfter cmp (last ys) (last ys)"
  shows "notAfter cmp e (last ys)"
proof (cases "e \<in> set (butlast ys)")
  case True
  with assms(1) show ?thesis by (rule sorted_wrt_last)
next
  case False
  have "set ys = insert (last ys) (set (butlast ys))"
    using assms(2) by (metis append_butlast_last_id list.simps(15) rotate1.simps(2) set_rotate1)
  with False assms(3,4) show ?thesis by auto
qed

lemma buildResult_general:
  assumes "buildResult p raws target m = Inr r"
  shows "mset (compatibleVersions r) = mset (map entryOf (filter (keeps target) raws))
    \<and> compatible r = Some (list_ex (\<lambda>v. compareVersions v (currentVersion p) = Inr 0)
                               (keptVersions target raws))
    \<and> (keptVersions target raws = [] \<longrightarrow>
          recommendedVersion r = None \<and> compatibleVersionRange r = None)
    \<and> (keptVersions target raws \<noteq> [] \<longrightarrow>
          (\<exists>v. recommendedVersion r = Some v \<and> versionMaximal v (keptVersions target raws))
          \<and> (\<exists>v1 v2. versionMinimal v1 (keptVersions target raws)
                \<and> versionMaximal v2 (keptVersions target raws)
                \<and> compatibleVersionRange r = Some (if v1 = v2 then v1 else v1 @ '' - '' @ v2)))"
proof -
  from assms obtain cvs b cvs' sorted' where
    s1: "collectCompatible target [] raws = Inr cvs"
    and s2: "someE (equalsCurrent (currentVersion p)) cvs = Inr b"
    and s3: "if cvs = [] then cvs' = [] else sortE descending cvs = Inr cvs'"
    and s4: "if cvs' = [] then sorted' = [] else sortE ascending cvs' = Inr sorted'"
    and comp: "compatible r = Some b"
    and cv: "compatibleVersions r = cvs'"
    and rec: "recommendedVersion r = (if cvs = [] then None else Some (pluginVersion (cvs' ! 0)))"
    and range: "compatibleVersionRange r =
          (if cvs' = [] then None
           else Some (if pluginVersion (sorted' ! 0) = pluginVersion (sorted' ! (length sorted' - 1))
                      then pluginVersion (sorted' ! 0)
                      else pluginVersion (sorted' ! 0) @ '' - ''
                           @ pluginVersion (sorted' ! (length sorted' - 1))))"
    and err: "error r = None" and fm: "fetchMethod r = m"
    by (rule buildResult_steps)
  let ?kv = "keptVersions target raws"
  have cvs: "cvs = map entryOf (filter (keeps target) raws)"
    using collectCompatible_kept [OF s1] by simp
  have kv: "map pluginVersion cvs = ?kv" unfolding cvs by (rule kept_versions)
  have m1: "mset cvs' = mset cvs"
    using s3 by (cases "cvs = []") (auto dest: sortE_mset)
  have m2: "mset sorted' = mset cvs'"
    using s4 by (cases "cvs' = []") (auto dest: sortE_mset)
  have set1: "set cvs' = set cvs" using m1 by (metis set_mset_mset)
  have set2: "set sorted' = set cvs" using m1 m2 by (metis set_mset_mset)
  have parse: "\<And>e. e \<in> set cvs \<Longrightarrow> parses (pluginVersion e)"
    using buildResult_parses [OF s1 s2 s3] by blast
  have in_kv: "\<And>e. e \<in> set cvs \<Longrightarrow> pluginVersion e \<in> set ?kv"
    using kv by (metis image_eqI set_map)
  have from_kv: "\<And>u. u \<in> set ?kv \<Longrightarrow> \<exists>e \<in> set cvs. u = pluginVersion e"
    using kv by (metis (no_types, lifting) image_iff set_map)
  have c1: "mset (compatibleVersions r) = mset (map entryOf (filter (keeps target) raws))"
    using cv m1 cvs by simp
  have c2: "compatible r = Some (list_ex (\<lambda>v. compareVersions v (currentVersion p) = Inr 0) ?kv)"
    using comp buildResult_compatible [OF s2] kv by simp
  have c3: "?kv = [] \<longrightarrow> recommendedVersion r = None \<and> compatibleVersionRange r = None"
  proof
    assume "?kv = []"
    then have "cvs = []" using kv by simp
    moreover from this have "cvs' = []" using s3 by simp
    ultimately show "recommendedVersion r = None \<and> compatibleVersionRange r = None"
      using rec range by simp
  qed
  have c4: "?kv \<noteq> [] \<longrightarrow>
          (\<exists>v. recommendedVersion r = Some v \<and> versionMaximal v ?kv)
          \<and> (\<exists>v1 v2. versionMinimal v1 ?kv \<and> versionMaximal v2 ?kv
                \<and> compatibleVersionRange r = Some (if v1 = v2 then v1 else v1 @ '' - '' @ v2))"
  proof
    assume "?kv \<noteq> []"
    then have ne: "cvs \<noteq> []" using kv by auto
    then have ne1: "cvs' \<noteq> []" and ne2: "sorted' \<noteq> []"
      using m1 m2 by (metis mset_zero_iff)+
    have d: "sortE descending cvs = Inr cvs'" using s3 ne by simp
    have a: "sortE ascending cvs' = Inr sorted'" using s4 ne1 by simp
    have sd: "sorted_wrt (notAfter descending) cvs'"
      using preorderE_descending d by (rule sortE_sorted)
    have sa: "sorted_wrt (notAfter ascending) sorted'"
      using preorderE_ascending a by (rule sortE_sorted)
    have hd1: "hd cvs' \<in> set cvs" using ne1 set1 by (metis hd_in_set)
    have hd2: "hd sorted' \<in> set cvs" using ne2 set2 by (metis hd_in_set)
    have la2: "last sorted' \<in> set cvs" using ne2 set2 by (metis last_in_set)
    have max_rec: "versionMaximal (pluginVersion (hd cvs')) ?kv"
    proof -
      have "\<And>u. u \<in> set ?kv \<Longrightarrow> notAfter compareVersions u (pluginVersion (hd cvs'))"
      proof -
        fix u assume "u \<in> set ?kv"
        then obtain e where e: "e \<in> set cvs" "u = pluginVersion e" using from_kv by blast
        have "notAfter descending (hd cvs') e"
        proof (rule sorted_head_minimal [OF sd ne1])
          show "e \<in> set cvs'" using e(1) set1 by simp
          show "notAfter descending (hd cvs') (hd cvs')"
            using parse [OF hd1] by (simp add: notAfter_descending notAfter_refl)
        qed
        then show "notAfter compareVersions u (pluginVersion (hd cvs'))"
          using e(2) by (simp add: notAfter_descending)
      qed
      then show ?thesis
        using in_kv [OF hd1] by (simp add: versionMaximal_def list_all_iff)
    qed
    have min_range: "versionMinimal (pluginVersion (hd sorted')) ?kv"
    proof -
      have "\<And>u. u \<in> set ?kv \<Longrightarrow> notAfter compareVersions (pluginVersion (hd sorted')) u"
      proof -
        fix u assume "u \<in> set ?kv"
        then obtain e where e: "e \<in> set cvs" "u = pluginVersion e" using from_kv by blast
        have "notAfter ascending (hd sorted') e"
        proof (rule sorted_head_minimal [OF sa ne2])
          show "e \<in> set sorted'" using e(1) set2 by simp
          show "notAfter ascending (hd sorted') (hd sorted')"
            using parse [OF hd2] by (simp add: notAfter_ascending notAfter_refl)
        qed
        then show "notAfter compareVersions (pluginVersion (hd sorted')) u"
          using e(2) by (simp add: notAfter_ascending)
      qed
      then show ?thesis
        using in_kv [OF hd2] by (simp add: versionMinimal_def list_all_iff)
    qed
    have max_range: "versionMaximal (pluginVersion (last sorted')) ?kv"
    proof -
      have "\<And>u. u \<in> set ?kv \<Longrightarrow> notAfter compareVersions u (pluginVersion (last sorted'))"
      proof -
        fix u assume "u \<in> set ?kv"
        then obtain e where e: "e \<in> set cvs" "u = pluginVersion e" using from_kv by blast
        have "notAfter ascending e (last sorted')"
        proof (rule sorted_last_maximal [OF sa ne2])
          show "e \<in> set sorted'" using e(1) set2 by simp
          show "notAfter ascending (last sorted') (last sorted')"
            using parse [OF la2] by (simp add: notAfter_ascending notAfter_refl)
        qed
        then show "notAfter compareVersions u (pluginVersion (last sorted'))"
          using e(2) by (simp add: notAfter_ascending)
      qed
      then show ?thesis
        using in_kv [OF la2] by (simp add: versionMaximal_def list_all_iff)
    qed
    have i0: "cvs' ! 0 = hd cvs'" using ne1 by (simp add: hd_conv_nth)
    have j0: "sorted' ! 0 = hd sorted'" using ne2 by (simp add: hd_conv_nth)
    have jl: "sorted' ! (length sorted' - 1) = last sorted'" using ne2 by (simp add: last_conv_nth)
    have "recommendedVersion r = Some (pluginVersion (hd cvs'))"
      using rec ne i0 by simp
    moreover have "compatibleVersionRange r
        = Some (if pluginVersion (hd sorted') = pluginVersion (last sorted')
                then pluginVersion (hd sorted')
                else pluginVersion (hd sorted') @ '' - '' @ pluginVersion (last sorted'))"
      using range ne1 by (simp only: j0 jl if_False)
    ultimately show "(\<exists>v. recommendedVersion r = Some v \<and> versionMaximal v ?kv)
          \<and> (\<exists>v1 v2. versionMinimal v1 ?kv \<and> versionMaximal v2 ?kv
                \<and> compatibleVersionRange r = Some (if v1 = v2 then v1 else v1 @ '' - '' @ v2))"
      using max_rec min_range max_range
      by (intro conjI exI [of _ "pluginVersion (hd cvs')"] exI [of _ "pluginVersion (hd sorted')"]
          exI [of _ "pluginVersion (last sorted')"])
  qed
  show ?thesis by (rule conjI [OF c1 conjI [OF c2 conjI [OF c3 c4]]])
qed

lemma buildResult_returns:
  assumes "parses target" and "parses (currentVersion p)"
    and "\<And>v. v \<in> set raws \<Longrightarrow> parses (version v) \<and> parses (orEmpty (fst (bounds v)))
            \<and> parses (orEmpty (snd (bounds v)))"
  shows "\<exists>r. buildResult p raws target m = Inr r"
proof -
  have "\<exists>cvs. collectCompatible target [] raws = Inr cvs"
    using assms(1,3) by (intro collectCompatible_returns isVersionInRange_returns) auto
  then obtain cvs where s1: "collectCompatible target [] raws = Inr cvs" by blast
  have cvs: "cvs = map entryOf (filter (keeps target) raws)"
    using collectCompatible_kept [OF s1] by simp
  have parse: "\<And>e. e \<in> set cvs \<Longrightarrow> parses (pluginVersion e)"
    using assms(3) by (auto simp: cvs pluginVersion_entryOf)
  have "\<And>x. x \<in> set cvs \<Longrightarrow> \<exists>c. equalsCurrent (currentVersion p) x = Inr c"
  proof -
    fix x assume "x \<in> set cvs"
    then obtain d where "compareVersions (pluginVersion x) (currentVersion p) = Inr d"
      using parse assms(2) compareVersions_Inr_iff by blast
    then show "\<exists>c. equalsCurrent (currentVersion p) x = Inr c"
      by (simp add: equalsCurrent_def)
  qed
  then obtain b where s2: "someE (equalsCurrent (currentVersion p)) cvs = Inr b"
    using someE_returns [of cvs "equalsCurrent (currentVersion p)"] by blast
  have "\<exists>cvs'. sortE descending cvs = Inr cvs'"
    using parse compareVersions_Inr_iff by (intro sortE_returns) (simp add: descending_def)
  then obtain cvs' where s3: "sortE descending cvs = Inr cvs'" by blast
  have "set cvs' = set cvs" using sortE_mset [OF s3] by (metis set_mset_mset)
  then have "\<exists>sorted'. sortE ascending cvs' = Inr sorted'"
    using parse compareVersions_Inr_iff by (intro sortE_returns) (simp add: ascending_def)
  then obtain sorted' where s4: "sortE ascending cvs' = Inr sorted'" by blast
  show ?thesis by (simp add: buildResult_def s1 s2 s3 s4)
qed

lemmas builder_eval =
  buildResult_def resolveBounds_def mkEntry_def isVersionInRange_def
  equalsCurrent_def descending_def ascending_def

lemmas kept_eval = keptVersions_def keeps_def bounds_def parses_def

lemma build_example:
  "\<exists>r. buildResult scriptrunner [record10, record20, record30] ''8.5'' m = Inr r
     \<and> map pluginVersion (compatibleVersions r) = [''3.0'', ''2.0'']
     \<and> recommendedVersion r = Some ''3.0''
     \<and> compatibleVersionRange r = Some ''2.0 - 3.0''
     \<and> compatible r = Some False"
  by (simp add: builder_eval parser_eval version_eval js_eval example_defs)

lemma kept_example: "keptVersions ''8.5'' [record10, record20, record30] = [''2.0'', ''3.0'']"
  by (simp add: kept_eval builder_eval parser_eval version_eval js_eval example_defs)

lemma build_line_terminator:
  "buildResult scriptrunner [record10, record20, record30] (''8'' @ [CHR 0x0A] @ ''5'') m
   = Inl TypeError"
  by (simp add: builder_eval parser_eval version_eval js_eval example_defs)

text \<open>
  Claim C2. Whenever \<^verbatim>\<open>buildResult\<close> returns, its result is the one of the claim
  (lemma \<open>buildResult_general\<close>: the entries are those of exactly the records kept,
  \<^verbatim>\<open>recommendedVersion\<close> is a version-maximal kept version and
  \<^verbatim>\<open>compatibleVersionRange\<close> is built from a version-minimal and a version-maximal
  one), and it returns when the target, the current version and the versions and bounds
  of the records parse (lemma \<open>buildResult_returns\<close>). For the three records 1.0, 2.0
  and 3.0 of the specification, the target 8.5 and the current version 1.0 it returns
  the recommended version 3.0, the range 2.0 - 3.0 and compatible false. But it does not
  return for every target: with the same records and the target 8, line feed, 5 the
  call of \<^verbatim>\<open>isVersionInRange\<close> for the first record throws the TypeError of
  \<^verbatim>\<open>parseSegment\<close>, and \<^verbatim>\<open>buildResult\<close> keeps no record and gives no result.
\<close>

theorem buildResult_throws_on_target:
  "buildResult scriptrunner [record10, record20, record30] (''8'' @ [CHR 0x0A] @ ''5'')
     ''initial-state'' = Inl TypeError
   \<and> (\<exists>r. buildResult scriptrunner [record10, record20, record30] ''8.5'' ''initial-state''
            = Inr r
         \<and> map pluginVersion (compatibleVersions r) = [''3.0'', ''2.0'']
         \<and> recommendedVersion r = Some ''3.0''
         \<and> compatibleVersionRange r = Some ''2.0 - 3.0''
         \<and> compatible r = Some False)"
  by (simp add: builder_eval parser_eval version_eval js_eval example_defs)

section \<open>Properties of the batch\<close>

text \<open>
  One plugin. When every method of the plan has failed the result is the failed result
  with the reasons; otherwise the result is built from the records, and is the failed
  result again when an exception is thrown while it is built.
\<close>

lemma fetchAllVersions_attempts:
  "fetchAllVersions E p w = (res, w', evs) \<Longrightarrow> attempts evs \<noteq> []"
proof -
  assume "fetchAllVersions E p w = (res, w', evs)"
  then have fs: "firstSuccess E p (planned E p) [] [] w = (res, w', evs)"
    by (simp only: fetchAllVersions_firstSuccess)
  have ne: "planned E p \<noteq> []" using planned_cases [of E p] by auto
  from firstSuccess_trace [OF fs] ne obtain k where
    k: "attempts evs = attempts [] @ take k (planned E p)" "1 \<le> k"
    by blast
  have "attempts [] = []" by (simp add: attempts_def)
  with k ne show ?thesis by (cases "planned E p"; cases k) simp_all
qed

lemma processPlugin_exhausted:
  "fetchAllVersions E p w = (Inl errors, w', evs) \<Longrightarrow>
   processPlugin E p target w = (failedResult p target (AllMethodsFailed errors), w', evs)"
  by (simp add: processPlugin_def)


lemma processPlugin_thrown:
  "fetchAllVersions E p w = (Inr f, w', evs) \<Longrightarrow>
   buildResult p (versions f) target (method' f) = Inl e \<Longrightarrow>
   processPlugin E p target w = (failedResult p target (Thrown e), w', evs)"
  by (simp add: processPlugin_def)


lemma buildResult_identity:
  assumes "buildResult p raws target m = Inr r"
  shows "pluginName r = name p \<and> pluginUrl r = marketplaceUrl p"
proof -
  from assms obtain cvs where s1: "collectCompatible target [] raws = Inr cvs"
    by (cases "collectCompatible target [] raws") (simp_all add: buildResult_def)
  from assms s1 obtain b where s2: "someE (equalsCurrent (currentVersion p)) cvs = Inr b"
    by (cases "someE (equalsCurrent (currentVersion p)) cvs") (simp_all add: buildResult_def)
  from assms s1 s2 obtain cvs' where
    s3: "(if 0 < length cvs then sortE descending cvs else Inr cvs) = Inr cvs'"
    by (cases "if 0 < length cvs then sortE descending cvs else Inr cvs")
      (simp_all add: buildResult_def)
  from assms s1 s2 s3 obtain sorted' where
    s4: "(if 0 < length cvs' then sortE ascending cvs' else Inr cvs') = Inr sorted'"
    by (cases "if 0 < length cvs' then sortE ascending cvs' else Inr cvs'")
      (simp_all add: buildResult_def)
  from assms show ?thesis
    unfolding buildResult_def s1 s2 s3 s4 sum.case by auto
qed

lemma processPlugin_identity:
  assumes "processPlugin E p target w = (r, w', evs)"
  shows "pluginName r = name p \<and> pluginUrl r = marketplaceUrl p"
proof -
  obtain res w1 evs1 where f: "fetchAllVersions E p w = (res, w1, evs1)"
    by (cases "fetchAllVersions E p w") auto
  show ?thesis
  proof (cases res)
    case (Inl errors)
    with f assms show ?thesis by (auto simp: processPlugin_def failedResult_def)
  next
    case (Inr fd)
    show ?thesis
    proof (cases "buildResult p (versions fd) target (method' fd)")
      case (Inl e)
      with f Inr assms show ?thesis by (auto simp: processPlugin_def failedResult_def)
    next
      case built: (Inr b)
      with f Inr assms have "r = b" by (simp add: processPlugin_def)
      with buildResult_identity [OF built] show ?thesis by simp
    qed
  qed
qed

text \<open>
  The batch: one result for each plugin, in the order of the plugins, each the result
  of processing that plugin in the state the plugins before it have left.
\<close>

lemma processAll_length:
  "processAll E ps target w = (rs, w', evs) \<Longrightarrow> length rs = length ps"
proof (induction ps arbitrary: w rs w' evs)
  case Nil
  then show ?case by simp
next
  case (Cons p ps)
  obtain r w1 evs1 where a: "processPlugin E p target w = (r, w1, evs1)"
    by (cases "processPlugin E p target w") auto
  obtain rs' w2 evs2 where b: "processAll E ps target w1 = (rs', w2, evs2)"
    by (cases "processAll E ps target w1") auto
  from Cons.prems a b have "rs = r # rs'" by simp
  with Cons.IH [OF b] show ?case by simp
qed

lemma processAll_order:
  "processAll E ps target w = (rs, w', evs) \<Longrightarrow>
   map pluginName rs = map name ps \<and> map pluginUrl rs = map marketplaceUrl ps"
proof (induction ps arbitrary: w rs w' evs)
  case Nil
  then show ?case by simp
next
  case (Cons p ps)
  obtain r w1 evs1 where a: "processPlugin E p target w = (r, w1, evs1)"
    by (cases "processPlugin E p target w") auto
  obtain rs' w2 evs2 where b: "processAll E ps target w1 = (rs', w2, evs2)"
    by (cases "processAll E ps target w1") auto
  from Cons.prems a b have "rs = r # rs'" by simp
  with Cons.IH [OF b] processPlugin_identity [OF a] show ?case by simp
qed

lemma processAll_nth:
  "processAll E ps target w = (rs, w', evs) \<Longrightarrow> i < length ps \<Longrightarrow>
   rs ! i = fst (processPlugin E (ps ! i) target (fst (snd (processAll E (take i ps) target w))))"
proof (induction ps arbitrary: w rs w' evs i)
  case Nil
  then show ?case by simp
next
  case (Cons p ps)
  obtain r w1 evs1 where a: "processPlugin E p target w = (r, w1, evs1)"
    by (cases "processPlugin E p target w") auto
  obtain rs' w2 evs2 where b: "processAll E ps target w1 = (rs', w2, evs2)"
    by (cases "processAll E ps target w1") auto
  from Cons.prems a b have rs: "rs = r # rs'" by simp
  show ?case
  proof (cases i)
    case 0
    with rs a show ?thesis by simp
  next
    case (Suc j)
    with Cons.prems have j: "j < length ps" by simp
    obtain rs'' w3 evs3 where c: "processAll E (take j ps) target w1 = (rs'', w3, evs3)"
      by (cases "processAll E (take j ps) target w1") auto
    from Cons.IH [OF b j] c have "rs' ! j = fst (processPlugin E (ps ! j) target w3)" by simp
    with Suc rs a c show ?thesis by simp
  qed
qed

lemma buildResult_compatible_iff:
  assumes "buildResult p raws target m = Inr r"
  shows "compatible r
    = Some (\<exists>e \<in> set (compatibleVersions r).
              compareVersions (pluginVersion e) (currentVersion p) = Inr 0)"
proof -
  note g = buildResult_general [OF assms]
  from g have "set_mset (mset (compatibleVersions r))
      = set_mset (mset (map entryOf (filter (keeps target) raws)))"
    by simp
  then have "set (compatibleVersions r) = set (map entryOf (filter (keeps target) raws))"
    by (simp only: set_mset_mset)
  then have "set (keptVersions target raws) = pluginVersion ` set (compatibleVersions r)"
    by (simp only: kept_versions [symmetric] set_map)
  then have "(\<exists>e \<in> set (compatibleVersions r).
                compareVersions (pluginVersion e) (currentVersion p) = Inr 0)
      = list_ex (\<lambda>v. compareVersions v (currentVersion p) = Inr 0) (keptVersions target raws)"
    by (simp add: list_ex_iff)
  with g show ?thesis by simp
qed

lemmas batch_eval = checkCompatibility_def processAll.simps processPlugin_def

lemma fetch_pageEnv_scriptrunner:
  "fetchAllVersions pageEnv scriptrunner ()
   = (Inr \<lparr>versions = [record10, record20, record30], method' = ''initial-state''\<rparr>, (),
      [Attempt InitialState
         ''https://m.example/apps/12/scriptrunner/version-history?versionHistoryHosting=dataCenter''])"
  by (simp add: orchestrator_eval url_eval js_eval example_defs)

lemma fetch_pageEnv_otherPlugin:
  "fetchAllVersions pageEnv otherPlugin ()
   = (Inl [''initial-state: HTTP 404'', ''rest-api: HTTP 404'', ''puppeteer: Timeout''], (),
      [Attempt InitialState
         ''https://m.example/apps/34/other/version-history?versionHistoryHosting=dataCenter'',
       Attempt RestApi ''34'',
       Attempt Puppeteer
         ''https://m.example/apps/34/other/version-history?versionHistoryHosting=dataCenter''])"
  by (simp add: orchestrator_eval url_eval js_eval example_defs)

lemma launch_pageEnv: "launchBrowser pageEnv w = (None, w)"
  by (simp add: pageEnv_def)


text \<open>
  Claim C1. For a result that \<^verbatim>\<open>buildResult\<close> returns the field \<^verbatim>\<open>compatible\<close>
  is the boolean of the claim (lemma \<open>buildResult_compatible_iff\<close>), and a plugin
  whose methods have all failed gets \<^verbatim>\<open>null\<close> (lemma \<open>processPlugin_exhausted\<close>).
  But the \<^verbatim>\<open>try\<close> of \<^verbatim>\<open>checkCompatibility\<close> spans \<^verbatim>\<open>buildResult\<close> as well:
  with the target 8, line feed, 5 the initial-state method succeeds with the three
  records of the example, \<^verbatim>\<open>compareVersions\<close> throws on the target while the result
  is built, and the plugin gets the failed result, with \<^verbatim>\<open>compatible\<close>
  \<^verbatim>\<open>null\<close>, although its acquisition has succeeded at the first method.
\<close>

theorem compatible_null_after_acquisition:
  "fetchAllVersions pageEnv scriptrunner ()
     = (Inr \<lparr>versions = [record10, record20, record30], method' = ''initial-state''\<rparr>, (),
        [Attempt InitialState
           ''https://m.example/apps/12/scriptrunner/version-history?versionHistoryHosting=dataCenter''])
   \<and> checkCompatibility pageEnv [scriptrunner] (''8'' @ [CHR 0x0A] @ ''5'') ()
     = (Inr [failedResult scriptrunner (''8'' @ [CHR 0x0A] @ ''5'') (Thrown TypeError)], (),
        [LaunchBrowser,
         Attempt InitialState
           ''https://m.example/apps/12/scriptrunner/version-history?versionHistoryHosting=dataCenter'',
         CloseBrowser])
   \<and> compatible (failedResult scriptrunner (''8'' @ [CHR 0x0A] @ ''5'') (Thrown TypeError)) = None"
proof -
  have "processPlugin pageEnv scriptrunner (''8'' @ [CHR 0x0A] @ ''5'') ()
      = (failedResult scriptrunner (''8'' @ [CHR 0x0A] @ ''5'') (Thrown TypeError), (),
         [Attempt InitialState
           ''https://m.example/apps/12/scriptrunner/version-history?versionHistoryHosting=dataCenter''])"
    by (rule processPlugin_thrown [OF fetch_pageEnv_scriptrunner])
      (simp only: fetched.simps build_line_terminator)
  then have "checkCompatibility pageEnv [scriptrunner] (''8'' @ [CHR 0x0A] @ ''5'') ()
     = (Inr [failedResult scriptrunner (''8'' @ [CHR 0x0A] @ ''5'') (Thrown TypeError)], (),
        [LaunchBrowser,
         Attempt InitialState
           ''https://m.example/apps/12/scriptrunner/version-history?versionHistoryHosting=dataCenter'',
         CloseBrowser])"
    by (simp add: checkCompatibility_def launch_pageEnv)
  then show ?thesis
    by (simp only: fetch_pageEnv_scriptrunner simp_thms) (simp add: failedResult_def)
qed

text \<open>
  Claim C7. The batch returns one result for each plugin, in the order of the plugins
  (lemmas \<open>processAll_length\<close>, \<open>processAll_order\<close>, \<open>processAll_nth\<close>), a plugin
  whose methods have all failed gets the failed result with the reasons and the batch
  goes on (lemma \<open>processPlugin_exhausted\<close>). The count of the claim fails: of the two
  plugins below only the first exhausts its methods, the second is acquired by the
  initial-state method, and with the target 8, line feed, 5 both results have
  \<^verbatim>\<open>compatible\<close> \<^verbatim>\<open>null\<close>, the second one because \<^verbatim>\<open>compareVersions\<close> throws
  while its result is built.
\<close>

theorem batch_two_null_entries:
  "fetchAllVersions pageEnv otherPlugin ()
     = (Inl [''initial-state: HTTP 404'', ''rest-api: HTTP 404'', ''puppeteer: Timeout''], (),
        [Attempt InitialState
           ''https://m.example/apps/34/other/version-history?versionHistoryHosting=dataCenter'',
         Attempt RestApi ''34'',
         Attempt Puppeteer
           ''https://m.example/apps/34/other/version-history?versionHistoryHosting=dataCenter''])
   \<and> fst (fetchAllVersions pageEnv scriptrunner ())
     = Inr \<lparr>versions = [record10, record20, record30], method' = ''initial-state''\<rparr>
   \<and> fst (checkCompatibility pageEnv [otherPlugin, scriptrunner] (''8'' @ [CHR 0x0A] @ ''5'') ())
     = Inr [failedResult otherPlugin (''8'' @ [CHR 0x0A] @ ''5'')
              (AllMethodsFailed
                 [''initial-state: HTTP 404'', ''rest-api: HTTP 404'', ''puppeteer: Timeout'']),
            failedResult scriptrunner (''8'' @ [CHR 0x0A] @ ''5'') (Thrown TypeError)]
   \<and> map compatible
         [failedResult otherPlugin (''8'' @ [CHR 0x0A] @ ''5'')
            (AllMethodsFailed
               [''initial-state: HTTP 404'', ''rest-api: HTTP 404'', ''puppeteer: Timeout'']),
          failedResult scriptrunner (''8'' @ [CHR 0x0A] @ ''5'') (Thrown TypeError)]
       = [None, None]"
proof -
  have one: "processPlugin pageEnv otherPlugin (''8'' @ [CHR 0x0A] @ ''5'') ()
      = (failedResult otherPlugin (''8'' @ [CHR 0x0A] @ ''5'')
           (AllMethodsFailed
              [''initial-state: HTTP 404'', ''rest-api: HTTP 404'', ''puppeteer: Timeout'']), (),
         [Attempt InitialState
           ''https://m.example/apps/34/other/version-history?versionHistoryHosting=dataCenter'',
          Attempt RestApi ''34'',
          Attempt Puppeteer
           ''https://m.example/apps/34/other/version-history?versionHistoryHosting=dataCenter''])"
    by (rule processPlugin_exhausted [OF fetch_pageEnv_otherPlugin])
  have two: "processPlugin pageEnv scriptrunner (''8'' @ [CHR 0x0A] @ ''5'') ()
      = (failedResult scriptrunner (''8'' @ [CHR 0x0A] @ ''5'') (Thrown TypeError), (),
         [Attempt InitialState
           ''https://m.example/apps/12/scriptrunner/version-history?versionHistoryHosting=dataCenter''])"
    by (rule processPlugin_thrown [OF fetch_pageEnv_scriptrunner])
      (simp only: fetched.simps build_line_terminator)
  have "fst (checkCompatibility pageEnv [otherPlugin, scriptrunner] (''8'' @ [CHR 0x0A] @ ''5'') ())
     = Inr [failedResult otherPlugin (''8'' @ [CHR 0x0A] @ ''5'')
              (AllMethodsFailed
                 [''initial-state: HTTP 404'', ''rest-api: HTTP 404'', ''puppeteer: Timeout'']),
            failedResult scriptrunner (''8'' @ [CHR 0x0A] @ ''5'') (Thrown TypeError)]"
    using one two by (simp add: checkCompatibility_def launch_pageEnv)
  then show ?thesis
    by (simp only: fetch_pageEnv_otherPlugin fetch_pageEnv_scriptrunner simp_thms fst_conv)
      (simp add: failedResult_def)
qed

section \<open>Input validation\<close>












end
